theory Spec2Isabelle
  imports Main "HOL-Library.Multiset"
begin

section \<open>The lock state of PiiReadWriteLock\<close>

text \<open>
  A thread is identified by its \<^verbatim>\<open>Qt::HANDLE\<close>, an opaque pointer-sized value compared
  only for equality. The null handle is \<open>0\<close>; it is the initial value of the local
  variable \<^verbatim>\<open>self\<close> in both acquire functions and the value \<^verbatim>\<open>currentWriter\<close> is reset to.
\<close>

type_synonym handle = nat

text \<open>
  Modelled from the spec: the declaration of \<^verbatim>\<open>PiiReadWriteLock::Data\<close> lives in
  \<^verbatim>\<open>PiiReadWriteLock.h\<close>, which is not among the sources. The fields are the ones the
  constructor initialises and the member functions use; \<^verbatim>\<open>hashCurrentReaders\<close> is the
  per-thread table of read-holds (handle to int). The mutex and the two wait conditions
  carry no data: the mutex is what makes each section below atomic, and the wait conditions
  appear as the suspension points and the wake-up requests.
  The counters are C++ \<^verbatim>\<open>int\<close>s, modelled as unbounded integers (signed overflow, two
  thousand million nested holds away, is outside the model).
\<close>

record Data =
  currentWriter :: handle
  bRecursive :: bool
  iActiveReaders :: int
  iActiveWriters :: int
  iWaitingReaders :: int
  iWaitingWriters :: int
  hashCurrentReaders :: "handle \<rightharpoonup> int"

text \<open>The constructor \<^verbatim>\<open>Data::Data(bool recursive)\<close>; the hash starts empty.\<close>

definition newData :: "bool \<Rightarrow> Data" where
  "newData recursive =
     \<lparr> currentWriter = 0, bRecursive = recursive,
       iActiveReaders = 0, iActiveWriters = 0,
       iWaitingReaders = 0, iWaitingWriters = 0,
       hashCurrentReaders = Map.empty \<rparr>"

text \<open>
  Where a call stands when it gives up the mutex: it has returned to its caller, or it is
  suspended inside \<^verbatim>\<open>readerWait.wait\<close> or \<^verbatim>\<open>writerWait.wait\<close>. A suspended call keeps its
  local variables: \<^verbatim>\<open>self\<close>, and for a writer \<^verbatim>\<open>iRemainingReaders\<close>.
\<close>

datatype frame = Returned | InReaderWait handle | InWriterWait handle int

text \<open>What a release asks of the wait conditions.\<close>

datatype signal = NoSignal | WriterWakeOne | ReaderWakeAll

text \<open>A failed \<^verbatim>\<open>Q_ASSERT\<close> aborts the call before the statements that follow it.\<close>

datatype error = AssertFailure

section \<open>The member functions, one atomic section at a time\<close>

subsection \<open>lockForRead\<close>

text \<open>
  The \<^verbatim>\<open>while\<close> loop of \<^verbatim>\<open>lockForRead\<close> from the test of its guard onwards: either the
  guard holds, \<^verbatim>\<open>iWaitingReaders\<close> is incremented and the call suspends in
  \<^verbatim>\<open>readerWait.wait\<close>, or the loop is left and the read-hold is recorded.
\<close>

definition lockForRead_loop :: "handle \<Rightarrow> Data \<Rightarrow> frame \<times> Data" where
  "lockForRead_loop self d =
     (if iActiveWriters d > 0 \<or> iWaitingWriters d > 0
      then (InReaderWait self, d\<lparr>iWaitingReaders := iWaitingReaders d + 1\<rparr>)
      else
        let d1 = (if bRecursive d
                  then d\<lparr>hashCurrentReaders := (hashCurrentReaders d)(self \<mapsto> 1)\<rparr>
                  else d)
        in (Returned, d1\<lparr>iActiveReaders := iActiveReaders d1 + 1\<rparr>))"

text \<open>
  \<^verbatim>\<open>lockForRead\<close> from the call to its first suspension or its return. The argument
  \<open>tid\<close> is what \<^verbatim>\<open>QThread::currentThreadId()\<close> gives the calling thread; it is read in
  recursive mode only, otherwise \<^verbatim>\<open>self\<close> stays null.
\<close>

definition lockForRead :: "handle \<Rightarrow> Data \<Rightarrow> frame \<times> Data" where
  "lockForRead tid d =
     (if bRecursive d then
        (case hashCurrentReaders d tid of
           Some n \<Rightarrow>
             (Returned, d\<lparr>hashCurrentReaders := (hashCurrentReaders d)(tid \<mapsto> n + 1),
                          iActiveReaders := iActiveReaders d + 1\<rparr>)
         | None \<Rightarrow>
             if currentWriter d = tid
             then (Returned, d\<lparr>hashCurrentReaders := (hashCurrentReaders d)(tid \<mapsto> 1),
                               iActiveReaders := iActiveReaders d + 1\<rparr>)
             else lockForRead_loop tid d)
      else lockForRead_loop 0 d)"

text \<open>
  The rest of \<^verbatim>\<open>lockForRead\<close> once \<^verbatim>\<open>readerWait.wait\<close> has returned with the mutex
  held again: \<^verbatim>\<open>iWaitingReaders\<close> is decremented and the guard is tested anew.
\<close>

definition lockForRead_resume :: "handle \<Rightarrow> Data \<Rightarrow> frame \<times> Data" where
  "lockForRead_resume self d =
     lockForRead_loop self (d\<lparr>iWaitingReaders := iWaitingReaders d - 1\<rparr>)"

subsection \<open>lockForWrite\<close>

definition lockForWrite_loop :: "handle \<Rightarrow> int \<Rightarrow> Data \<Rightarrow> frame \<times> Data" where
  "lockForWrite_loop self iRemainingReaders d =
     (if iActiveWriters d > 0 \<or> iActiveReaders d > iRemainingReaders
      then (InWriterWait self iRemainingReaders, d\<lparr>iWaitingWriters := iWaitingWriters d + 1\<rparr>)
      else (Returned, d\<lparr>currentWriter := self, iActiveWriters := iActiveWriters d + 1\<rparr>))"

definition lockForWrite :: "handle \<Rightarrow> Data \<Rightarrow> frame \<times> Data" where
  "lockForWrite tid d =
     (if bRecursive d then
        (if currentWriter d = tid
         then (Returned, d\<lparr>iActiveWriters := iActiveWriters d + 1\<rparr>)
         else lockForWrite_loop tid
                (case hashCurrentReaders d tid of Some n \<Rightarrow> n | None \<Rightarrow> 0) d)
      else lockForWrite_loop 0 0 d)"

definition lockForWrite_resume :: "handle \<Rightarrow> int \<Rightarrow> Data \<Rightarrow> frame \<times> Data" where
  "lockForWrite_resume self iRemainingReaders d =
     lockForWrite_loop self iRemainingReaders (d\<lparr>iWaitingWriters := iWaitingWriters d - 1\<rparr>)"

subsection \<open>wakeUp and the two releases\<close>

text \<open>The tests of \<^verbatim>\<open>wakeUp\<close> are C++ truth tests of an int: non-zero.\<close>

definition wakeUp :: "Data \<Rightarrow> signal" where
  "wakeUp d =
     (if iWaitingWriters d \<noteq> 0 then WriterWakeOne
      else if iWaitingReaders d \<noteq> 0 then ReaderWakeAll
      else NoSignal)"

text \<open>
  \<^verbatim>\<open>Q_ASSERT\<close> is compiled in or out with the build (\<^verbatim>\<open>QT_NO_DEBUG\<close>); \<open>asserts\<close> says
  which. The erase test \<^verbatim>\<open>--it.value() <= 0\<close> decrements the entry first.
\<close>

definition unlockRead :: "bool \<Rightarrow> handle \<Rightarrow> Data \<Rightarrow> error + (signal \<times> Data)" where
  "unlockRead asserts tid d =
     (if asserts \<and> \<not> iActiveReaders d > 0 then Inl AssertFailure
      else
        let d1 = (if bRecursive d then
                    (case hashCurrentReaders d tid of
                       Some n \<Rightarrow>
                         if n - 1 \<le> 0
                         then d\<lparr>hashCurrentReaders := (hashCurrentReaders d)(tid := None)\<rparr>
                         else d\<lparr>hashCurrentReaders := (hashCurrentReaders d)(tid \<mapsto> n - 1)\<rparr>
                     | None \<Rightarrow> d)
                  else d);
            d2 = d1\<lparr>iActiveReaders := iActiveReaders d1 - 1\<rparr>
        in Inr (if iActiveReaders d2 = 0 \<and> iActiveWriters d2 = 0 then wakeUp d2 else NoSignal,
                d2))"

text \<open>\<^verbatim>\<open>unlockWrite\<close> never asks for the thread identity.\<close>

definition unlockWrite :: "bool \<Rightarrow> Data \<Rightarrow> error + (signal \<times> Data)" where
  "unlockWrite asserts d =
     (if asserts \<and> \<not> iActiveWriters d > 0 then Inl AssertFailure
      else
        let d1 = d\<lparr>iActiveWriters := iActiveWriters d - 1\<rparr>
        in if iActiveWriters d1 = 0
           then let d2 = d1\<lparr>currentWriter := 0\<rparr>
                in Inr (if iActiveReaders d2 = 0 then wakeUp d2 else NoSignal, d2)
           else Inr (NoSignal, d1))"

section \<open>Notions the properties are stated with\<close>

text \<open>
  The number of read-holds the table records for a thread: the entry if there is one, and
  \<open>0\<close> if there is none or the lock is not recursive. It is the value \<^verbatim>\<open>lockForWrite\<close>
  leaves in \<^verbatim>\<open>iRemainingReaders\<close>.
\<close>

definition ownReaders :: "Data \<Rightarrow> handle \<Rightarrow> int" where
  "ownReaders d tid =
     (if bRecursive d then (case hashCurrentReaders d tid of Some n \<Rightarrow> n | None \<Rightarrow> 0) else 0)"

text \<open>The sum of the hold counts in the per-thread table.\<close>

definition holdSum :: "Data \<Rightarrow> int" where
  "holdSum d = (\<Sum>t \<in> dom (hashCurrentReaders d). the (hashCurrentReaders d t))"

text \<open>
  One thread calling \<^verbatim>\<open>lockForRead\<close> \<open>n\<close> times in a row with no other thread running in
  between. A call that suspends ends the run: nobody is there to wake it.
\<close>

fun lockForRead_times :: "nat \<Rightarrow> handle \<Rightarrow> Data \<Rightarrow> frame \<times> Data" where
  "lockForRead_times 0 tid d = (Returned, d)"
| "lockForRead_times (Suc n) tid d =
     (case lockForRead tid d of
        (f, d') \<Rightarrow> if f = Returned then lockForRead_times n tid d' else (f, d'))"

text \<open>One thread calling \<^verbatim>\<open>unlockRead\<close> \<open>n\<close> times in a row; a failed assertion ends the run.\<close>

fun unlockRead_times :: "bool \<Rightarrow> nat \<Rightarrow> handle \<Rightarrow> Data \<Rightarrow> error + Data" where
  "unlockRead_times asserts 0 tid d = Inr d"
| "unlockRead_times asserts (Suc n) tid d =
     (case unlockRead asserts tid d of
        Inl e \<Rightarrow> Inl e
      | Inr (sig, d') \<Rightarrow> unlockRead_times asserts n tid d')"

section \<open>Threads running against one lock\<close>

text \<open>
  Every statement of the four member functions runs under \<^verbatim>\<open>QMutexLocker lock(&d->mutex)\<close>,
  and a wait gives the mutex up and takes it again as one step each. An execution of the
  lock under any number of threads is therefore an interleaving of the atomic sections
  defined above. A system state holds the lock's data, for every thread the frame of its
  call in progress (\<open>Returned\<close> when it is in none), and as bookkeeping of the proof, not of
  the code, the holds each thread has been granted and has not released yet: one
  occurrence of the thread in \<open>readHeld\<close> per read-hold, in \<open>writeHeld\<close> per write-hold.
\<close>

record system =
  lockData :: Data
  frames :: "handle \<Rightarrow> frame"
  readHeld :: "handle multiset"
  writeHeld :: "handle multiset"

definition newSystem :: "bool \<Rightarrow> system" where
  "newSystem recursive =
     \<lparr> lockData = newData recursive, frames = (\<lambda>_. Returned),
       readHeld = {#}, writeHeld = {#} \<rparr>"

text \<open>
  One step of one thread; thread handles are not null. A thread in no call may call
  \<^verbatim>\<open>lockForRead\<close> or \<^verbatim>\<open>lockForWrite\<close>, and may call \<^verbatim>\<open>unlockRead\<close> (\<^verbatim>\<open>unlockWrite\<close>) if it
  holds a read-hold (write-hold): that is the pairing of acquire and release. A suspended
  call may resume at any time, which covers \<^verbatim>\<open>wakeOne\<close>, \<^verbatim>\<open>wakeAll\<close> and a wake-up for no
  reason alike; whom a release wakes is therefore not tracked. A release whose assertion
  fails has no successor state.
\<close>

inductive step :: "bool \<Rightarrow> system \<Rightarrow> system \<Rightarrow> bool" for asserts :: bool where
  callLockForRead:
    "tid \<noteq> 0 \<Longrightarrow> frames s tid = Returned \<Longrightarrow> lockForRead tid (lockData s) = (f, d') \<Longrightarrow>
     step asserts s
       (s\<lparr>lockData := d', frames := (frames s)(tid := f),
          readHeld := (if f = Returned then add_mset tid (readHeld s) else readHeld s)\<rparr>)"
| resumeLockForRead:
    "tid \<noteq> 0 \<Longrightarrow> frames s tid = InReaderWait self \<Longrightarrow>
     lockForRead_resume self (lockData s) = (f, d') \<Longrightarrow>
     step asserts s
       (s\<lparr>lockData := d', frames := (frames s)(tid := f),
          readHeld := (if f = Returned then add_mset tid (readHeld s) else readHeld s)\<rparr>)"
| callLockForWrite:
    "tid \<noteq> 0 \<Longrightarrow> frames s tid = Returned \<Longrightarrow> lockForWrite tid (lockData s) = (f, d') \<Longrightarrow>
     step asserts s
       (s\<lparr>lockData := d', frames := (frames s)(tid := f),
          writeHeld := (if f = Returned then add_mset tid (writeHeld s) else writeHeld s)\<rparr>)"
| resumeLockForWrite:
    "tid \<noteq> 0 \<Longrightarrow> frames s tid = InWriterWait self own \<Longrightarrow>
     lockForWrite_resume self own (lockData s) = (f, d') \<Longrightarrow>
     step asserts s
       (s\<lparr>lockData := d', frames := (frames s)(tid := f),
          writeHeld := (if f = Returned then add_mset tid (writeHeld s) else writeHeld s)\<rparr>)"
| callUnlockRead:
    "tid \<noteq> 0 \<Longrightarrow> frames s tid = Returned \<Longrightarrow> tid \<in># readHeld s \<Longrightarrow>
     unlockRead asserts tid (lockData s) = Inr (sig, d') \<Longrightarrow>
     step asserts s (s\<lparr>lockData := d', readHeld := readHeld s - {#tid#}\<rparr>)"
| callUnlockWrite:
    "tid \<noteq> 0 \<Longrightarrow> frames s tid = Returned \<Longrightarrow> tid \<in># writeHeld s \<Longrightarrow>
     unlockWrite asserts (lockData s) = Inr (sig, d') \<Longrightarrow>
     step asserts s (s\<lparr>lockData := d', writeHeld := writeHeld s - {#tid#}\<rparr>)"

text \<open>The states a lock created in the given mode can be in, between any two steps.\<close>

definition reachable :: "bool \<Rightarrow> bool \<Rightarrow> system \<Rightarrow> bool" where
  "reachable asserts recursive s = (step asserts)\<^sup>*\<^sup>* (newSystem recursive) s"

text \<open>
  What the proof keeps track of: the counters count the holds; in recursive mode the table
  records each thread's read-holds and \<^verbatim>\<open>currentWriter\<close> is the one thread with
  write-holds, in non-recursive mode both stay as constructed; a suspended call's locals
  are what its entry computed; and the holds exclude each other.
\<close>

definition counters_inv :: "system \<Rightarrow> bool" where
  "counters_inv s =
     (iActiveReaders (lockData s) = int (size (readHeld s)) \<and>
      iActiveWriters (lockData s) = int (size (writeHeld s)))"

definition table_inv :: "system \<Rightarrow> bool" where
  "table_inv s =
     (if bRecursive (lockData s)
      then \<forall>t. hashCurrentReaders (lockData s) t =
                 (if t \<in># readHeld s then Some (int (count (readHeld s) t)) else None)
      else hashCurrentReaders (lockData s) = Map.empty)"

definition writer_inv :: "system \<Rightarrow> bool" where
  "writer_inv s =
     (if bRecursive (lockData s)
      then \<forall>t. t \<in># writeHeld s \<longleftrightarrow> (currentWriter (lockData s) = t \<and> t \<noteq> 0)
      else currentWriter (lockData s) = 0)"

definition frame_ok :: "system \<Rightarrow> handle \<Rightarrow> frame \<Rightarrow> bool" where
  "frame_ok s t f =
     (case f of
        Returned \<Rightarrow> True
      | InReaderWait self \<Rightarrow>
          self = (if bRecursive (lockData s) then t else 0) \<and>
          (bRecursive (lockData s) \<longrightarrow> t \<notin># readHeld s)
      | InWriterWait self own \<Rightarrow>
          self = (if bRecursive (lockData s) then t else 0) \<and>
          own = (if bRecursive (lockData s) then int (count (readHeld s) t) else 0))"

definition frames_inv :: "system \<Rightarrow> bool" where
  "frames_inv s = (\<forall>t. frame_ok s t (frames s t))"

definition exclusion :: "system \<Rightarrow> bool" where
  "exclusion s =
     (\<forall>t u. t \<in># writeHeld s \<and> (u \<in># writeHeld s \<or> u \<in># readHeld s) \<longrightarrow> u = t)"

definition lock_inv :: "system \<Rightarrow> bool" where
  "lock_inv s =
     (counters_inv s \<and> table_inv s \<and> writer_inv s \<and> frames_inv s \<and> exclusion s)"

text \<open>
  The threads whose call is suspended in \<^verbatim>\<open>readerWait.wait\<close> and in \<^verbatim>\<open>writerWait.wait\<close>: the
  waiting counters count them.
\<close>

definition readersWaiting :: "(handle \<Rightarrow> frame) \<Rightarrow> handle set" where
  "readersWaiting fs = {t. \<exists>self. fs t = InReaderWait self}"

definition writersWaiting :: "(handle \<Rightarrow> frame) \<Rightarrow> handle set" where
  "writersWaiting fs = {t. \<exists>self own. fs t = InWriterWait self own}"

definition waiting_inv :: "system \<Rightarrow> bool" where
  "waiting_inv s =
     (finite (readersWaiting (frames s)) \<and> finite (writersWaiting (frames s)) \<and>
      iWaitingReaders (lockData s) = int (card (readersWaiting (frames s))) \<and>
      iWaitingWriters (lockData s) = int (card (writersWaiting (frames s))))"

section \<open>The shapes a call can take\<close>

lemma lockForRead_loop_cases:
  assumes "lockForRead_loop self d = (f, d')"
  obtains
    (granted) "iActiveWriters d \<le> 0" "f = Returned"
      "d' = (if bRecursive d
             then d\<lparr>hashCurrentReaders := (hashCurrentReaders d)(self \<mapsto> 1),
                    iActiveReaders := iActiveReaders d + 1\<rparr>
             else d\<lparr>iActiveReaders := iActiveReaders d + 1\<rparr>)"
  | (suspended) "f = InReaderWait self" "d' = d\<lparr>iWaitingReaders := iWaitingReaders d + 1\<rparr>"
proof (cases "iActiveWriters d > 0 \<or> iWaitingWriters d > 0")
  case True
  with assms have "f = InReaderWait self" "d' = d\<lparr>iWaitingReaders := iWaitingReaders d + 1\<rparr>"
    by (auto simp: lockForRead_loop_def)
  then show ?thesis by (rule suspended)
next
  case False
  with assms have "iActiveWriters d \<le> 0" "f = Returned"
      "d' = (if bRecursive d
             then d\<lparr>hashCurrentReaders := (hashCurrentReaders d)(self \<mapsto> 1),
                    iActiveReaders := iActiveReaders d + 1\<rparr>
             else d\<lparr>iActiveReaders := iActiveReaders d + 1\<rparr>)"
    by (auto simp: lockForRead_loop_def Let_def)
  then show ?thesis by (rule granted)
qed

lemma lockForRead_cases:
  assumes "lockForRead tid d = (f, d')"
  obtains
    (reenter) n where "bRecursive d" "hashCurrentReaders d tid = Some n" "f = Returned"
      "d' = d\<lparr>hashCurrentReaders := (hashCurrentReaders d)(tid \<mapsto> n + 1),
              iActiveReaders := iActiveReaders d + 1\<rparr>"
  | (promote) "bRecursive d" "hashCurrentReaders d tid = None" "currentWriter d = tid"
      "f = Returned"
      "d' = d\<lparr>hashCurrentReaders := (hashCurrentReaders d)(tid \<mapsto> 1),
              iActiveReaders := iActiveReaders d + 1\<rparr>"
  | (granted) "bRecursive d \<longrightarrow> hashCurrentReaders d tid = None" "iActiveWriters d \<le> 0"
      "f = Returned"
      "d' = (if bRecursive d
             then d\<lparr>hashCurrentReaders := (hashCurrentReaders d)(tid \<mapsto> 1),
                    iActiveReaders := iActiveReaders d + 1\<rparr>
             else d\<lparr>iActiveReaders := iActiveReaders d + 1\<rparr>)"
  | (suspended) "bRecursive d \<longrightarrow> hashCurrentReaders d tid = None"
      "f = InReaderWait (if bRecursive d then tid else 0)"
      "d' = d\<lparr>iWaitingReaders := iWaitingReaders d + 1\<rparr>"
proof (cases "bRecursive d")
  case False
  with assms have "lockForRead_loop 0 d = (f, d')"
    by (simp add: lockForRead_def)
  then show ?thesis
  proof (cases rule: lockForRead_loop_cases)
    case granted
    with False show ?thesis by (intro that(3)) simp_all
  next
    case suspended
    with False show ?thesis by (intro that(4)) simp_all
  qed
next
  case True
  show ?thesis
  proof (cases "hashCurrentReaders d tid")
    case (Some n)
    with True assms have "f = Returned"
      "d' = d\<lparr>hashCurrentReaders := (hashCurrentReaders d)(tid \<mapsto> n + 1),
              iActiveReaders := iActiveReaders d + 1\<rparr>"
      by (auto simp: lockForRead_def)
    with True Some show ?thesis by (intro reenter)
  next
    case None
    show ?thesis
    proof (cases "currentWriter d = tid")
      case True
      with \<open>bRecursive d\<close> None assms have "f = Returned"
        "d' = d\<lparr>hashCurrentReaders := (hashCurrentReaders d)(tid \<mapsto> 1),
                iActiveReaders := iActiveReaders d + 1\<rparr>"
        by (auto simp: lockForRead_def)
      with \<open>bRecursive d\<close> None True show ?thesis by (intro promote)
    next
      case False
      with \<open>bRecursive d\<close> None assms have "lockForRead_loop tid d = (f, d')"
        by (simp add: lockForRead_def)
      then show ?thesis
      proof (cases rule: lockForRead_loop_cases)
        case granted
        with \<open>bRecursive d\<close> None show ?thesis by (intro that(3)) simp_all
      next
        case suspended
        with \<open>bRecursive d\<close> None show ?thesis by (intro that(4)) simp_all
      qed
    qed
  qed
qed

lemma lockForRead_resume_cases:
  assumes "lockForRead_resume self d = (f, d')"
  obtains
    (granted) "iActiveWriters d \<le> 0" "f = Returned"
      "d' = (if bRecursive d
             then d\<lparr>iWaitingReaders := iWaitingReaders d - 1,
                    hashCurrentReaders := (hashCurrentReaders d)(self \<mapsto> 1),
                    iActiveReaders := iActiveReaders d + 1\<rparr>
             else d\<lparr>iWaitingReaders := iWaitingReaders d - 1,
                    iActiveReaders := iActiveReaders d + 1\<rparr>)"
  | (suspended) "f = InReaderWait self" "d' = d"
proof (cases "iActiveWriters d > 0 \<or> iWaitingWriters d > 0")
  case True
  with assms have "f = InReaderWait self" "d' = d"
    by (auto simp: lockForRead_resume_def lockForRead_loop_def)
  then show ?thesis by (rule suspended)
next
  case False
  with assms have "iActiveWriters d \<le> 0" "f = Returned"
      "d' = (if bRecursive d
             then d\<lparr>iWaitingReaders := iWaitingReaders d - 1,
                    hashCurrentReaders := (hashCurrentReaders d)(self \<mapsto> 1),
                    iActiveReaders := iActiveReaders d + 1\<rparr>
             else d\<lparr>iWaitingReaders := iWaitingReaders d - 1,
                    iActiveReaders := iActiveReaders d + 1\<rparr>)"
    by (auto simp: lockForRead_resume_def lockForRead_loop_def Let_def)
  then show ?thesis by (rule granted)
qed

lemma lockForWrite_loop_cases:
  assumes "lockForWrite_loop self own d = (f, d')"
  obtains
    (granted) "iActiveWriters d \<le> 0" "iActiveReaders d \<le> own" "f = Returned"
      "d' = d\<lparr>currentWriter := self, iActiveWriters := iActiveWriters d + 1\<rparr>"
  | (suspended) "f = InWriterWait self own"
      "d' = d\<lparr>iWaitingWriters := iWaitingWriters d + 1\<rparr>"
proof (cases "iActiveWriters d > 0 \<or> iActiveReaders d > own")
  case True
  with assms have "f = InWriterWait self own"
    "d' = d\<lparr>iWaitingWriters := iWaitingWriters d + 1\<rparr>"
    by (auto simp: lockForWrite_loop_def)
  then show ?thesis by (rule suspended)
next
  case False
  with assms have "iActiveWriters d \<le> 0" "iActiveReaders d \<le> own" "f = Returned"
      "d' = d\<lparr>currentWriter := self, iActiveWriters := iActiveWriters d + 1\<rparr>"
    by (auto simp: lockForWrite_loop_def)
  then show ?thesis by (rule granted)
qed

lemma lockForWrite_cases:
  assumes "lockForWrite tid d = (f, d')"
  obtains
    (reenter) "bRecursive d" "currentWriter d = tid" "f = Returned"
      "d' = d\<lparr>iActiveWriters := iActiveWriters d + 1\<rparr>"
  | (granted) "iActiveWriters d \<le> 0" "iActiveReaders d \<le> ownReaders d tid" "f = Returned"
      "d' = d\<lparr>currentWriter := (if bRecursive d then tid else 0),
              iActiveWriters := iActiveWriters d + 1\<rparr>"
  | (suspended) "f = InWriterWait (if bRecursive d then tid else 0) (ownReaders d tid)"
      "d' = d\<lparr>iWaitingWriters := iWaitingWriters d + 1\<rparr>"
proof (cases "bRecursive d \<and> currentWriter d = tid")
  case True
  with assms have "f = Returned" "d' = d\<lparr>iActiveWriters := iActiveWriters d + 1\<rparr>"
    by (auto simp: lockForWrite_def)
  with True show ?thesis by (intro reenter) simp_all
next
  case False
  with assms have
    "lockForWrite_loop (if bRecursive d then tid else 0) (ownReaders d tid) d = (f, d')"
    by (auto simp: lockForWrite_def ownReaders_def)
  then show ?thesis
  proof (cases rule: lockForWrite_loop_cases)
    case granted
    then show ?thesis by (intro that(2))
  next
    case suspended
    then show ?thesis by (intro that(3))
  qed
qed

lemma lockForWrite_resume_cases:
  assumes "lockForWrite_resume self own d = (f, d')"
  obtains
    (granted) "iActiveWriters d \<le> 0" "iActiveReaders d \<le> own" "f = Returned"
      "d' = d\<lparr>iWaitingWriters := iWaitingWriters d - 1, currentWriter := self,
              iActiveWriters := iActiveWriters d + 1\<rparr>"
  | (suspended) "f = InWriterWait self own" "d' = d"
proof (cases "iActiveWriters d > 0 \<or> iActiveReaders d > own")
  case True
  with assms have "f = InWriterWait self own" "d' = d"
    by (auto simp: lockForWrite_resume_def lockForWrite_loop_def)
  then show ?thesis by (rule suspended)
next
  case False
  with assms have "iActiveWriters d \<le> 0" "iActiveReaders d \<le> own" "f = Returned"
      "d' = d\<lparr>iWaitingWriters := iWaitingWriters d - 1, currentWriter := self,
              iActiveWriters := iActiveWriters d + 1\<rparr>"
    by (auto simp: lockForWrite_resume_def lockForWrite_loop_def)
  then show ?thesis by (rule granted)
qed

lemma unlockRead_state:
  assumes "unlockRead asserts tid d = Inr (sig, d')"
  shows "d' = d\<lparr>hashCurrentReaders :=
                   (if bRecursive d
                    then (case hashCurrentReaders d tid of
                            Some n \<Rightarrow> if n - 1 \<le> 0 then (hashCurrentReaders d)(tid := None)
                                      else (hashCurrentReaders d)(tid \<mapsto> n - 1)
                          | None \<Rightarrow> hashCurrentReaders d)
                    else hashCurrentReaders d),
                 iActiveReaders := iActiveReaders d - 1\<rparr>"
  using assms
  by (cases "asserts \<and> \<not> iActiveReaders d > 0")
     (auto simp: unlockRead_def Let_def split: option.splits)

lemma unlockWrite_state:
  assumes "unlockWrite asserts d = Inr (sig, d')"
  shows "d' = d\<lparr>currentWriter := (if iActiveWriters d - 1 = 0 then 0 else currentWriter d),
                 iActiveWriters := iActiveWriters d - 1\<rparr>"
proof -
  from assms have na: "\<not> (asserts \<and> \<not> iActiveWriters d > 0)"
    by (cases "asserts \<and> \<not> iActiveWriters d > 0") (simp_all add: unlockWrite_def)
  show ?thesis
  proof (cases "iActiveWriters d - 1 = 0")
    case True
    with assms na have "d' = d\<lparr>iActiveWriters := iActiveWriters d - 1, currentWriter := 0\<rparr>"
      by (simp add: unlockWrite_def Let_def)
    with True show ?thesis by simp
  next
    case False
    with assms na have "d' = d\<lparr>iActiveWriters := iActiveWriters d - 1\<rparr>"
      by (simp add: unlockWrite_def Let_def)
    with False show ?thesis by simp
  qed
qed

section \<open>Immediate grants of lockForRead in recursive mode\<close>

text \<open>
  C4. In recursive mode \<^verbatim>\<open>lockForRead\<close> returns without suspending, whatever the number of
  waiting or active writers, (a) when the calling thread has an entry in the table: the
  entry and \<^verbatim>\<open>iActiveReaders\<close> are each incremented; (b) when it has none and is
  \<^verbatim>\<open>currentWriter\<close>: an entry with count 1 is inserted and \<^verbatim>\<open>iActiveReaders\<close> is incremented.
  Nothing else of the state changes.
\<close>

theorem lockForRead_recursive_immediate:
  "(bRecursive d \<and> hashCurrentReaders d tid = Some n \<longrightarrow>
      lockForRead tid d =
        (Returned, d\<lparr>hashCurrentReaders := (hashCurrentReaders d)(tid \<mapsto> n + 1),
                     iActiveReaders := iActiveReaders d + 1\<rparr>)) \<and>
   (bRecursive d \<and> hashCurrentReaders d tid = None \<and> currentWriter d = tid \<longrightarrow>
      lockForRead tid d =
        (Returned, d\<lparr>hashCurrentReaders := (hashCurrentReaders d)(tid \<mapsto> 1),
                     iActiveReaders := iActiveReaders d + 1\<rparr>))"
  by (simp add: lockForRead_def)

theorem lockForRead_recursive_immediate_witness:
  "lockForRead 5 ((newData True)\<lparr>iActiveReaders := 2, iWaitingWriters := 3,
                                 hashCurrentReaders := [5 \<mapsto> 2]\<rparr>)
     = (Returned, (newData True)\<lparr>iActiveReaders := 3, iWaitingWriters := 3,
                                 hashCurrentReaders := [5 \<mapsto> 3]\<rparr>) \<and>
   lockForRead 7 ((newData True)\<lparr>currentWriter := 7, iActiveWriters := 1, iWaitingWriters := 1\<rparr>)
     = (Returned, (newData True)\<lparr>currentWriter := 7, iActiveReaders := 1, iActiveWriters := 1,
                                 iWaitingWriters := 1, hashCurrentReaders := [7 \<mapsto> 1]\<rparr>)"
  using lockForRead_recursive_immediate
          [of "(newData True)\<lparr>iActiveReaders := 2, iWaitingWriters := 3,
                                hashCurrentReaders := [5 \<mapsto> 2]\<rparr>" 5 2]
        lockForRead_recursive_immediate
          [of "(newData True)\<lparr>currentWriter := 7, iActiveWriters := 1, iWaitingWriters := 1\<rparr>" 7]
  by (simp add: newData_def)

section \<open>The wait loop of lockForRead\<close>

text \<open>
  C3. A thread that has no entry in the table and is not \<^verbatim>\<open>currentWriter\<close> (in non-recursive
  mode: any thread) reaches the loop of \<^verbatim>\<open>lockForRead\<close>. While
  \<open>iActiveWriters > 0 \<or> iWaitingWriters > 0\<close> the call increments \<^verbatim>\<open>iWaitingReaders\<close> and
  suspends; each time its wait ends it decrements \<^verbatim>\<open>iWaitingReaders\<close> and tests the guard
  again. Only with the guard false does it increment \<^verbatim>\<open>iActiveReaders\<close>, after setting
  the caller's entry to 1 in recursive mode. Nothing else of the state changes.
\<close>

theorem lockForRead_guard:
  "((bRecursive d \<longrightarrow> hashCurrentReaders d tid = None \<and> currentWriter d \<noteq> tid) \<longrightarrow>
      lockForRead tid d =
        (if iActiveWriters d > 0 \<or> iWaitingWriters d > 0
         then (InReaderWait (if bRecursive d then tid else 0),
               d\<lparr>iWaitingReaders := iWaitingReaders d + 1\<rparr>)
         else (Returned,
               if bRecursive d
               then d\<lparr>hashCurrentReaders := (hashCurrentReaders d)(tid \<mapsto> 1),
                      iActiveReaders := iActiveReaders d + 1\<rparr>
               else d\<lparr>iActiveReaders := iActiveReaders d + 1\<rparr>))) \<and>
   lockForRead_resume self d =
     (if iActiveWriters d > 0 \<or> iWaitingWriters d > 0
      then (InReaderWait self, d\<lparr>iWaitingReaders := iWaitingReaders d - 1 + 1\<rparr>)
      else (Returned,
            if bRecursive d
            then d\<lparr>iWaitingReaders := iWaitingReaders d - 1,
                   hashCurrentReaders := (hashCurrentReaders d)(self \<mapsto> 1),
                   iActiveReaders := iActiveReaders d + 1\<rparr>
            else d\<lparr>iWaitingReaders := iWaitingReaders d - 1,
                   iActiveReaders := iActiveReaders d + 1\<rparr>))"
  by (auto simp: lockForRead_def lockForRead_resume_def lockForRead_loop_def Let_def)

theorem lockForRead_guard_witness:
  "lockForRead 4 ((newData True)\<lparr>iActiveReaders := 1, iWaitingWriters := 1,
                                 hashCurrentReaders := [9 \<mapsto> 1]\<rparr>)
     = (InReaderWait 4, (newData True)\<lparr>iActiveReaders := 1, iWaitingReaders := 1,
                                       iWaitingWriters := 1, hashCurrentReaders := [9 \<mapsto> 1]\<rparr>) \<and>
   lockForRead_resume 4 ((newData True)\<lparr>iActiveReaders := 1, iWaitingReaders := 1,
                                        hashCurrentReaders := [9 \<mapsto> 1]\<rparr>)
     = (Returned, (newData True)\<lparr>iActiveReaders := 2,
                                 hashCurrentReaders := [9 \<mapsto> 1, 4 \<mapsto> 1]\<rparr>)"
  using lockForRead_guard
          [of "(newData True)\<lparr>iActiveReaders := 1, iWaitingWriters := 1,
                                hashCurrentReaders := [9 \<mapsto> 1]\<rparr>" 4 4]
        lockForRead_guard
          [of "(newData True)\<lparr>iActiveReaders := 1, iWaitingReaders := 1,
                                hashCurrentReaders := [9 \<mapsto> 1]\<rparr>" 4 4]
  by (simp add: newData_def)

section \<open>The wait loop of lockForWrite\<close>

text \<open>
  C2, as the spec states it, has the writer set \<^verbatim>\<open>currentWriter\<close> to the caller when it
  leaves the wait. In non-recursive mode \<^verbatim>\<open>self\<close> is never assigned the thread's handle:
  thread 7 taking a fresh non-recursive lock for writing returns at once with
  \<^verbatim>\<open>iActiveWriters = 1\<close> and \<^verbatim>\<open>currentWriter\<close> still null.
\<close>

theorem lockForWrite_nonrecursive_writer_null:
  "fst (lockForWrite 7 (newData False)) = Returned \<and>
   iActiveWriters (snd (lockForWrite 7 (newData False))) = 1 \<and>
   currentWriter (snd (lockForWrite 7 (newData False))) \<noteq> 7"
  by (simp add: lockForWrite_def lockForWrite_loop_def newData_def)

text \<open>
  C2, amended. Unless the lock is recursive and the caller is \<^verbatim>\<open>currentWriter\<close>,
  \<^verbatim>\<open>lockForWrite\<close> tests \<open>iActiveWriters > 0 \<or> iActiveReaders > ownReaders\<close> on entry and
  again each time its wait ends, with \<open>ownReaders\<close> the caller's table entry read on entry
  (0 without an entry or in non-recursive mode); while the test holds it increments
  \<^verbatim>\<open>iWaitingWriters\<close> and suspends, decrementing it when the wait ends. When the test fails
  it sets \<^verbatim>\<open>currentWriter\<close> to the caller's handle in recursive mode and to null in
  non-recursive mode, and increments \<^verbatim>\<open>iActiveWriters\<close>. In recursive mode a caller equal
  to \<^verbatim>\<open>currentWriter\<close> only increments \<^verbatim>\<open>iActiveWriters\<close> and returns. In particular a
  test made with no active writer and no read-holds but the caller's own lets the caller
  through.
\<close>

theorem lockForWrite_guard:
  "(\<not> (bRecursive d \<and> currentWriter d = tid) \<longrightarrow>
      lockForWrite tid d =
        (if iActiveWriters d > 0 \<or> iActiveReaders d > ownReaders d tid
         then (InWriterWait (if bRecursive d then tid else 0) (ownReaders d tid),
               d\<lparr>iWaitingWriters := iWaitingWriters d + 1\<rparr>)
         else (Returned,
               d\<lparr>currentWriter := (if bRecursive d then tid else 0),
                 iActiveWriters := iActiveWriters d + 1\<rparr>))) \<and>
   lockForWrite_resume self own d =
     (if iActiveWriters d > 0 \<or> iActiveReaders d > own
      then (InWriterWait self own, d\<lparr>iWaitingWriters := iWaitingWriters d - 1 + 1\<rparr>)
      else (Returned,
            d\<lparr>iWaitingWriters := iWaitingWriters d - 1, currentWriter := self,
              iActiveWriters := iActiveWriters d + 1\<rparr>)) \<and>
   (bRecursive d \<and> currentWriter d = tid \<longrightarrow>
      lockForWrite tid d = (Returned, d\<lparr>iActiveWriters := iActiveWriters d + 1\<rparr>)) \<and>
   (iActiveWriters d \<le> 0 \<and> iActiveReaders d \<le> ownReaders d tid \<longrightarrow>
      fst (lockForWrite tid d) = Returned \<and>
      fst (lockForWrite_resume self (ownReaders d tid) d) = Returned)"
  by (auto simp: lockForWrite_def lockForWrite_resume_def lockForWrite_loop_def ownReaders_def
           split: option.splits)

theorem lockForWrite_guard_witness:
  "lockForWrite 3 ((newData True)\<lparr>iActiveReaders := 3,
                                  hashCurrentReaders := [3 \<mapsto> 2, 8 \<mapsto> 1]\<rparr>)
     = (InWriterWait 3 2, (newData True)\<lparr>iActiveReaders := 3, iWaitingWriters := 1,
                                         hashCurrentReaders := [3 \<mapsto> 2, 8 \<mapsto> 1]\<rparr>) \<and>
   lockForWrite_resume 3 2 ((newData True)\<lparr>iActiveReaders := 2, iWaitingWriters := 1,
                                           hashCurrentReaders := [3 \<mapsto> 2]\<rparr>)
     = (Returned, (newData True)\<lparr>currentWriter := 3, iActiveReaders := 2, iActiveWriters := 1,
                                 hashCurrentReaders := [3 \<mapsto> 2]\<rparr>) \<and>
   lockForWrite 3 ((newData True)\<lparr>currentWriter := 3, iActiveWriters := 1\<rparr>)
     = (Returned, (newData True)\<lparr>currentWriter := 3, iActiveWriters := 2\<rparr>) \<and>
   fst (lockForWrite 3 ((newData True)\<lparr>iActiveReaders := 2,
                                       hashCurrentReaders := [3 \<mapsto> 2]\<rparr>)) = Returned"
  using lockForWrite_guard
          [of "(newData True)\<lparr>iActiveReaders := 3,
                                hashCurrentReaders := [3 \<mapsto> 2, 8 \<mapsto> 1]\<rparr>" 3 3 2]
        lockForWrite_guard
          [of "(newData True)\<lparr>iActiveReaders := 2, iWaitingWriters := 1,
                                hashCurrentReaders := [3 \<mapsto> 2]\<rparr>" 3 3 2]
        lockForWrite_guard
          [of "(newData True)\<lparr>currentWriter := 3, iActiveWriters := 1\<rparr>" 3 3 0]
        lockForWrite_guard
          [of "(newData True)\<lparr>iActiveReaders := 2, hashCurrentReaders := [3 \<mapsto> 2]\<rparr>" 3 3 2]
  by (simp add: newData_def ownReaders_def)

text \<open>
  The guard says when a test lets the promoting thread through, not when the test is made.
  Threads 1 and 2 each hold one read-hold and thread 1 is suspended in \<^verbatim>\<open>lockForWrite\<close>
  with \<^verbatim>\<open>iRemainingReaders = 1\<close>. When thread 2 releases, \<^verbatim>\<open>iActiveReaders\<close> drops to 1, not
  to 0, and \<^verbatim>\<open>unlockRead\<close> asks for no wake-up, although thread 1 would pass its guard.
\<close>

lemma promotion_wake_not_requested:
  "unlockRead True 2 ((newData True)\<lparr>iActiveReaders := 2, iWaitingWriters := 1,
                                     hashCurrentReaders := [1 \<mapsto> 1, 2 \<mapsto> 1]\<rparr>)
     = Inr (NoSignal, (newData True)\<lparr>iActiveReaders := 1, iWaitingWriters := 1,
                                       hashCurrentReaders := [1 \<mapsto> 1]\<rparr>) \<and>
   fst (lockForWrite_resume 1 1 ((newData True)\<lparr>iActiveReaders := 1, iWaitingWriters := 1,
                                                hashCurrentReaders := [1 \<mapsto> 1]\<rparr>)) = Returned"
  by (simp add: unlockRead_def lockForWrite_resume_def lockForWrite_loop_def newData_def
        Let_def fun_upd_twist)

section \<open>What the releases return\<close>

lemma unlockRead_signal:
  "unlockRead asserts tid d = Inr (sig, d') \<Longrightarrow>
     sig = (if iActiveReaders d' = 0 \<and> iActiveWriters d' = 0 then wakeUp d' else NoSignal)"
  by (cases "asserts \<and> \<not> iActiveReaders d > 0") (auto simp: unlockRead_def Let_def)

lemma unlockWrite_signal:
  "unlockWrite asserts d = Inr (sig, d') \<Longrightarrow>
     sig = (if iActiveReaders d' = 0 \<and> iActiveWriters d' = 0 then wakeUp d' else NoSignal)"
  by (cases "asserts \<and> \<not> iActiveWriters d > 0"; cases "iActiveWriters d - 1 = 0")
     (auto simp: unlockWrite_def Let_def)

lemma unlockRead_waiting:
  "unlockRead asserts tid d = Inr (sig, d') \<Longrightarrow>
     iWaitingWriters d' = iWaitingWriters d \<and> iWaitingReaders d' = iWaitingReaders d"
  by (cases "asserts \<and> \<not> iActiveReaders d > 0")
     (auto simp: unlockRead_def Let_def split: option.splits)

lemma unlockWrite_frame:
  "unlockWrite asserts d = Inr (sig, d') \<Longrightarrow>
      d' = d\<lparr>currentWriter := currentWriter d', iActiveWriters := iActiveWriters d'\<rparr>"
  by (cases "asserts \<and> \<not> iActiveWriters d > 0"; cases "iActiveWriters d - 1 = 0")
     (auto simp: unlockWrite_def Let_def)

lemma unlockWrite_waiting:
  "unlockWrite asserts d = Inr (sig, d') \<Longrightarrow>
     iWaitingWriters d' = iWaitingWriters d \<and> iWaitingReaders d' = iWaitingReaders d"
  by (cases "asserts \<and> \<not> iActiveWriters d > 0"; cases "iActiveWriters d - 1 = 0")
     (auto simp: unlockWrite_def Let_def)

lemma wakeUp_policy:
  "0 \<le> iWaitingWriters d \<Longrightarrow> 0 \<le> iWaitingReaders d \<Longrightarrow>
     wakeUp d = (if iWaitingWriters d > 0 then WriterWakeOne
                 else if iWaitingReaders d > 0 then ReaderWakeAll
                 else NoSignal)"
  by (simp add: wakeUp_def)

text \<open>
  C5. A release asks for a wake-up only when it leaves the lock completely free
  (\<open>iActiveReaders = 0\<close> and \<open>iActiveWriters = 0\<close> after its decrement), and what it then
  asks for is: \<^verbatim>\<open>writerWait.wakeOne()\<close> if \<open>iWaitingWriters > 0\<close>, otherwise
  \<^verbatim>\<open>readerWait.wakeAll()\<close> if \<open>iWaitingReaders > 0\<close>, otherwise nothing. The waiting counters
  are counts of suspended calls and so not negative (in every reachable state:
  \<open>reachable_data_model\<close> below).
\<close>

theorem release_wake_policy:
  "(0 \<le> iWaitingWriters d \<and> 0 \<le> iWaitingReaders d \<and>
    unlockRead asserts tid d = Inr (sig, d') \<longrightarrow>
      sig = (if iActiveReaders d' = 0 \<and> iActiveWriters d' = 0
             then (if iWaitingWriters d' > 0 then WriterWakeOne
                   else if iWaitingReaders d' > 0 then ReaderWakeAll
                   else NoSignal)
             else NoSignal)) \<and>
   (0 \<le> iWaitingWriters d \<and> 0 \<le> iWaitingReaders d \<and>
    unlockWrite asserts d = Inr (sig, d') \<longrightarrow>
      sig = (if iActiveReaders d' = 0 \<and> iActiveWriters d' = 0
             then (if iWaitingWriters d' > 0 then WriterWakeOne
                   else if iWaitingReaders d' > 0 then ReaderWakeAll
                   else NoSignal)
             else NoSignal))"
proof (intro conjI impI)
  assume h: "0 \<le> iWaitingWriters d \<and> 0 \<le> iWaitingReaders d \<and>
             unlockRead asserts tid d = Inr (sig, d')"
  then have w: "0 \<le> iWaitingWriters d'" "0 \<le> iWaitingReaders d'"
    using unlockRead_waiting [of asserts tid d sig d'] by simp_all
  from h have "sig = (if iActiveReaders d' = 0 \<and> iActiveWriters d' = 0
                      then wakeUp d' else NoSignal)"
    using unlockRead_signal by blast
  then show "sig = (if iActiveReaders d' = 0 \<and> iActiveWriters d' = 0
             then (if iWaitingWriters d' > 0 then WriterWakeOne
                   else if iWaitingReaders d' > 0 then ReaderWakeAll
                   else NoSignal)
             else NoSignal)"
    using wakeUp_policy [OF w] by simp
next
  assume h: "0 \<le> iWaitingWriters d \<and> 0 \<le> iWaitingReaders d \<and>
             unlockWrite asserts d = Inr (sig, d')"
  then have w: "0 \<le> iWaitingWriters d'" "0 \<le> iWaitingReaders d'"
    using unlockWrite_waiting [of asserts d sig d'] by simp_all
  from h have "sig = (if iActiveReaders d' = 0 \<and> iActiveWriters d' = 0
                      then wakeUp d' else NoSignal)"
    using unlockWrite_signal by blast
  then show "sig = (if iActiveReaders d' = 0 \<and> iActiveWriters d' = 0
             then (if iWaitingWriters d' > 0 then WriterWakeOne
                   else if iWaitingReaders d' > 0 then ReaderWakeAll
                   else NoSignal)
             else NoSignal)"
    using wakeUp_policy [OF w] by simp
qed

theorem release_wake_policy_witness:
  "unlockRead True 1 ((newData True)\<lparr>iActiveReaders := 1, iWaitingReaders := 2,
                                     iWaitingWriters := 1, hashCurrentReaders := [1 \<mapsto> 1]\<rparr>)
     = Inr (WriterWakeOne, (newData True)\<lparr>iWaitingReaders := 2, iWaitingWriters := 1\<rparr>) \<and>
   unlockWrite True ((newData False)\<lparr>iActiveWriters := 1, iWaitingReaders := 2\<rparr>)
     = Inr (ReaderWakeAll, (newData False)\<lparr>iWaitingReaders := 2\<rparr>) \<and>
   unlockRead True 1 ((newData False)\<lparr>iActiveReaders := 2, iWaitingWriters := 1\<rparr>)
     = Inr (NoSignal, (newData False)\<lparr>iActiveReaders := 1, iWaitingWriters := 1\<rparr>)"
proof -
  have a: "unlockRead True 1 ((newData True)\<lparr>iActiveReaders := 1, iWaitingReaders := 2,
                                     iWaitingWriters := 1, hashCurrentReaders := [1 \<mapsto> 1]\<rparr>)
     = Inr (fst (projr (unlockRead True 1 ((newData True)\<lparr>iActiveReaders := 1,
              iWaitingReaders := 2, iWaitingWriters := 1, hashCurrentReaders := [1 \<mapsto> 1]\<rparr>))),
            (newData True)\<lparr>iWaitingReaders := 2, iWaitingWriters := 1\<rparr>)"
    by (simp add: unlockRead_def newData_def Let_def)
  have b: "unlockWrite True ((newData False)\<lparr>iActiveWriters := 1, iWaitingReaders := 2\<rparr>)
     = Inr (fst (projr (unlockWrite True ((newData False)\<lparr>iActiveWriters := 1,
              iWaitingReaders := 2\<rparr>))),
            (newData False)\<lparr>iWaitingReaders := 2\<rparr>)"
    by (simp add: unlockWrite_def newData_def Let_def)
  have c: "unlockRead True 1 ((newData False)\<lparr>iActiveReaders := 2, iWaitingWriters := 1\<rparr>)
     = Inr (fst (projr (unlockRead True 1 ((newData False)\<lparr>iActiveReaders := 2,
              iWaitingWriters := 1\<rparr>))),
            (newData False)\<lparr>iActiveReaders := 1, iWaitingWriters := 1\<rparr>)"
    by (simp add: unlockRead_def newData_def Let_def)
  show ?thesis
    using release_wake_policy [THEN conjunct1, rule_format, OF conjI [OF _ conjI [OF _ a]]]
          release_wake_policy [THEN conjunct2, rule_format, OF conjI [OF _ conjI [OF _ b]]]
          release_wake_policy [THEN conjunct1, rule_format, OF conjI [OF _ conjI [OF _ c]]]
          a b c
    by (simp add: newData_def)
qed

section \<open>Releases without a matching hold\<close>

text \<open>
  C7, as the spec states it, has a release by a thread without a matching hold reported
  before any mutation. With the assertions compiled in, thread 2, which has no entry in
  the table, releases a read-hold while thread 1 holds the only one: nothing is reported
  and \<^verbatim>\<open>iActiveReaders\<close> drops to 0 under thread 1.
\<close>

theorem unmatched_release_unnoticed:
  "hashCurrentReaders
     ((newData True)\<lparr>iActiveReaders := 1, hashCurrentReaders := [1 \<mapsto> 1]\<rparr>) 2 = None \<and>
   unlockRead True 2 ((newData True)\<lparr>iActiveReaders := 1, hashCurrentReaders := [1 \<mapsto> 1]\<rparr>)
     = Inr (NoSignal, (newData True)\<lparr>iActiveReaders := 0, hashCurrentReaders := [1 \<mapsto> 1]\<rparr>)"
  by (simp add: unlockRead_def wakeUp_def newData_def)

text \<open>
  C7, amended. With the assertions compiled in, \<^verbatim>\<open>unlockRead\<close> fails, before it changes
  anything, exactly when \<^verbatim>\<open>iActiveReaders\<close> is not positive, and \<^verbatim>\<open>unlockWrite\<close> exactly when
  \<^verbatim>\<open>iActiveWriters\<close> is not positive; a release that goes through therefore leaves its
  counter at zero or above. The test is on the counter of the whole lock, not on the
  calling thread.
\<close>

theorem release_assertion:
  "(unlockRead True tid d = Inl AssertFailure \<longleftrightarrow> iActiveReaders d \<le> 0) \<and>
   (unlockWrite True d = Inl AssertFailure \<longleftrightarrow> iActiveWriters d \<le> 0) \<and>
   (unlockRead True tid d = Inr (sig, d') \<longrightarrow> 0 \<le> iActiveReaders d') \<and>
   (unlockWrite True d = Inr (sig, d') \<longrightarrow> 0 \<le> iActiveWriters d')"
  by (auto simp: unlockRead_def unlockWrite_def Let_def split: if_splits option.splits)

theorem release_assertion_witness:
  "unlockRead True 5 (newData True) = Inl AssertFailure \<and>
   unlockWrite True (newData True) = Inl AssertFailure \<and>
   unlockRead True 5 ((newData False)\<lparr>iActiveReaders := 1\<rparr>) = Inr (NoSignal, newData False) \<and>
   unlockWrite True ((newData False)\<lparr>iActiveWriters := 1\<rparr>) = Inr (NoSignal, newData False) \<and>
   0 \<le> iActiveReaders (newData False) \<and> 0 \<le> iActiveWriters (newData False)"
proof -
  have a: "unlockRead True 5 ((newData False)\<lparr>iActiveReaders := 1\<rparr>) = Inr (NoSignal, newData False)"
    by (simp add: unlockRead_def wakeUp_def newData_def)
  have b: "unlockWrite True ((newData False)\<lparr>iActiveWriters := 1\<rparr>) = Inr (NoSignal, newData False)"
    by (simp add: unlockWrite_def wakeUp_def newData_def)
  have c: "iActiveReaders (newData True) \<le> 0" "iActiveWriters (newData True) \<le> 0"
    by (simp_all add: newData_def)
  show ?thesis
    using release_assertion [of 5 "newData True"] c
          release_assertion [of 5 "(newData False)\<lparr>iActiveReaders := 1\<rparr>" NoSignal "newData False"]
          release_assertion [of 5 "(newData False)\<lparr>iActiveWriters := 1\<rparr>" NoSignal "newData False"]
          a b
    by simp
qed

section \<open>Promotion to a write lock leaves the read-holds alone\<close>

lemma lockForWrite_loop_frame:
  "lockForWrite_loop self own d = (f, d') \<Longrightarrow>
      d' = d\<lparr>currentWriter := currentWriter d', iActiveWriters := iActiveWriters d',
             iWaitingWriters := iWaitingWriters d'\<rparr>"
  by (cases "iActiveWriters d > 0 \<or> iActiveReaders d > own")
     (auto simp: lockForWrite_loop_def)

lemma lockForWrite_frame:
  "lockForWrite tid d = (f, d') \<Longrightarrow>
      d' = d\<lparr>currentWriter := currentWriter d', iActiveWriters := iActiveWriters d',
             iWaitingWriters := iWaitingWriters d'\<rparr>"
  by (cases "bRecursive d"; cases "currentWriter d = tid")
     (auto simp: lockForWrite_def dest: lockForWrite_loop_frame)

lemma lockForWrite_resume_frame:
  "lockForWrite_resume self own d = (f, d') \<Longrightarrow>
      d' = d\<lparr>currentWriter := currentWriter d', iActiveWriters := iActiveWriters d',
             iWaitingWriters := iWaitingWriters d'\<rparr>"
  by (auto simp: lockForWrite_resume_def dest!: lockForWrite_loop_frame)

lemma lockForWrite_loop_Returned_waiting:
  "lockForWrite_loop self own d = (Returned, d') \<Longrightarrow> iWaitingWriters d' = iWaitingWriters d"
  by (cases "iActiveWriters d > 0 \<or> iActiveReaders d > own")
     (auto simp: lockForWrite_loop_def)

lemma lockForWrite_Returned_waiting:
  "lockForWrite tid d = (Returned, d') \<Longrightarrow> iWaitingWriters d' = iWaitingWriters d"
  by (cases "bRecursive d"; cases "currentWriter d = tid")
     (auto simp: lockForWrite_def dest: lockForWrite_loop_Returned_waiting)

text \<open>
  C9. \<^verbatim>\<open>lockForWrite\<close>, on entry and each time it resumes, and \<^verbatim>\<open>unlockWrite\<close> change neither
  the per-thread table nor \<^verbatim>\<open>iActiveReaders\<close>: of the whole state only \<^verbatim>\<open>currentWriter\<close>
  and \<^verbatim>\<open>iActiveWriters\<close> change, and \<^verbatim>\<open>iWaitingWriters\<close> while the call is suspended (every
  suspension adds one, every resumption takes one away, so a call that returns has put
  back what it added). So a thread that takes the write lock while holding read-holds and
  then releases the write lock has the table and \<^verbatim>\<open>iActiveReaders\<close> it started with.
\<close>

theorem write_promotion_frame:
  "(lockForWrite tid d = (f, d') \<longrightarrow>
      d' = d\<lparr>currentWriter := currentWriter d', iActiveWriters := iActiveWriters d',
             iWaitingWriters := iWaitingWriters d'\<rparr>) \<and>
   (lockForWrite_resume self own d = (f, d') \<longrightarrow>
      d' = d\<lparr>currentWriter := currentWriter d', iActiveWriters := iActiveWriters d',
             iWaitingWriters := iWaitingWriters d'\<rparr>) \<and>
   (lockForWrite tid d = (f, d') \<longrightarrow>
      iWaitingWriters d' = iWaitingWriters d + (if f = Returned then 0 else 1)) \<and>
   (lockForWrite_resume self own d = (f, d') \<longrightarrow>
      iWaitingWriters d' = iWaitingWriters d - 1 + (if f = Returned then 0 else 1)) \<and>
   (unlockWrite asserts d = Inr (sig, d') \<longrightarrow>
      d' = d\<lparr>currentWriter := currentWriter d', iActiveWriters := iActiveWriters d'\<rparr>) \<and>
   (lockForWrite tid d = (Returned, d') \<and> unlockWrite asserts d' = Inr (sig, d'') \<longrightarrow>
      hashCurrentReaders d'' = hashCurrentReaders d \<and>
      iActiveReaders d'' = iActiveReaders d \<and>
      d'' = d\<lparr>currentWriter := currentWriter d'', iActiveWriters := iActiveWriters d''\<rparr>)"
proof (intro conjI impI)
  assume "lockForWrite tid d = (f, d')"
  then show "d' = d\<lparr>currentWriter := currentWriter d', iActiveWriters := iActiveWriters d',
                     iWaitingWriters := iWaitingWriters d'\<rparr>"
    by (rule lockForWrite_frame)
next
  assume "lockForWrite_resume self own d = (f, d')"
  then show "d' = d\<lparr>currentWriter := currentWriter d', iActiveWriters := iActiveWriters d',
                     iWaitingWriters := iWaitingWriters d'\<rparr>"
    by (rule lockForWrite_resume_frame)
next
  assume "lockForWrite tid d = (f, d')"
  then show "iWaitingWriters d' = iWaitingWriters d + (if f = Returned then 0 else 1)"
    by (cases rule: lockForWrite_cases) simp_all
next
  assume "lockForWrite_resume self own d = (f, d')"
  then show "iWaitingWriters d' = iWaitingWriters d - 1 + (if f = Returned then 0 else 1)"
    by (cases rule: lockForWrite_resume_cases) simp_all
next
  assume "unlockWrite asserts d = Inr (sig, d')"
  then show "d' = d\<lparr>currentWriter := currentWriter d', iActiveWriters := iActiveWriters d'\<rparr>"
    by (rule unlockWrite_frame)
next
  assume h: "lockForWrite tid d = (Returned, d') \<and> unlockWrite asserts d' = Inr (sig, d'')"
  then have a: "d' = d\<lparr>currentWriter := currentWriter d', iActiveWriters := iActiveWriters d',
                        iWaitingWriters := iWaitingWriters d'\<rparr>"
    and w: "iWaitingWriters d' = iWaitingWriters d"
    and b: "d'' = d'\<lparr>currentWriter := currentWriter d'', iActiveWriters := iActiveWriters d''\<rparr>"
    using lockForWrite_frame lockForWrite_Returned_waiting unlockWrite_frame by blast+
  from a w have a': "d' = d\<lparr>currentWriter := currentWriter d',
                             iActiveWriters := iActiveWriters d'\<rparr>"
    by simp
  have c: "d'' = d\<lparr>currentWriter := currentWriter d'', iActiveWriters := iActiveWriters d''\<rparr>"
    by (subst b, subst a') simp
  show "hashCurrentReaders d'' = hashCurrentReaders d"
    by (subst c) simp
  show "iActiveReaders d'' = iActiveReaders d"
    by (subst c) simp
  show "d'' = d\<lparr>currentWriter := currentWriter d'', iActiveWriters := iActiveWriters d''\<rparr>"
    by (rule c)
qed

theorem write_promotion_frame_witness:
  "lockForWrite 3 ((newData True)\<lparr>iActiveReaders := 2, hashCurrentReaders := [3 \<mapsto> 2]\<rparr>)
     = (Returned, (newData True)\<lparr>currentWriter := 3, iActiveReaders := 2, iActiveWriters := 1,
                                 hashCurrentReaders := [3 \<mapsto> 2]\<rparr>) \<and>
   unlockWrite True ((newData True)\<lparr>currentWriter := 3, iActiveReaders := 2, iActiveWriters := 1,
                                    hashCurrentReaders := [3 \<mapsto> 2]\<rparr>)
     = Inr (NoSignal, (newData True)\<lparr>iActiveReaders := 2, hashCurrentReaders := [3 \<mapsto> 2]\<rparr>) \<and>
   hashCurrentReaders
     ((newData True)\<lparr>iActiveReaders := 2, hashCurrentReaders := [3 \<mapsto> 2]\<rparr>) 3 = Some 2"
proof -
  let ?d = "(newData True)\<lparr>iActiveReaders := 2, hashCurrentReaders := [3 \<mapsto> 2]\<rparr>"
  let ?d' = "(newData True)\<lparr>currentWriter := 3, iActiveReaders := 2, iActiveWriters := 1,
                             hashCurrentReaders := [3 \<mapsto> 2]\<rparr>"
  have a: "lockForWrite 3 ?d = (Returned, ?d')"
    by (simp add: lockForWrite_def lockForWrite_loop_def newData_def)
  have b: "unlockWrite True ?d' = Inr (NoSignal, ?d)"
    by (simp add: unlockWrite_def newData_def Let_def)
  have "hashCurrentReaders ?d = hashCurrentReaders ?d \<and> iActiveReaders ?d = iActiveReaders ?d"
    using write_promotion_frame [of 3 ?d Returned ?d' 0 0 True NoSignal ?d] a b by blast
  with a b show ?thesis by (simp add: newData_def)
qed

section \<open>The releases look at the counters only\<close>

text \<open>
  C10. \<^verbatim>\<open>unlockWrite\<close> never reads the identity of its caller (the model gives it none):
  whenever \<^verbatim>\<open>iActiveWriters\<close> is positive it decrements it, whatever \<^verbatim>\<open>currentWriter\<close> is.
  In recursive mode \<^verbatim>\<open>unlockRead\<close> called by a thread without an entry in the table, while
  \<^verbatim>\<open>iActiveReaders\<close> is positive, decrements \<^verbatim>\<open>iActiveReaders\<close> and leaves the table as it
  is; if the counter was the sum of the hold counts before, it is not afterwards.
\<close>

theorem release_ignores_caller:
  "(0 < iActiveWriters d \<longrightarrow>
      (\<exists>sig d'. unlockWrite asserts d = Inr (sig, d') \<and>
                iActiveWriters d' = iActiveWriters d - 1)) \<and>
   (bRecursive d \<and> hashCurrentReaders d tid = None \<and> 0 < iActiveReaders d \<longrightarrow>
      (\<exists>sig d'. unlockRead asserts tid d = Inr (sig, d') \<and>
                iActiveReaders d' = iActiveReaders d - 1 \<and>
                hashCurrentReaders d' = hashCurrentReaders d \<and>
                (iActiveReaders d = holdSum d \<longrightarrow> iActiveReaders d' \<noteq> holdSum d')))"
  by (auto simp: unlockRead_def unlockWrite_def Let_def holdSum_def)

theorem release_ignores_caller_witness:
  "currentWriter ((newData True)\<lparr>currentWriter := 1, iActiveReaders := 1, iActiveWriters := 1,
                                 hashCurrentReaders := [1 \<mapsto> 1]\<rparr>) \<noteq> 2 \<and>
   (\<exists>sig d'. unlockWrite True ((newData True)\<lparr>currentWriter := 1, iActiveReaders := 1,
                  iActiveWriters := 1, hashCurrentReaders := [1 \<mapsto> 1]\<rparr>) = Inr (sig, d') \<and>
             iActiveWriters d' = 0) \<and>
   (\<exists>sig d'. unlockRead True 2 ((newData True)\<lparr>currentWriter := 1, iActiveReaders := 1,
                  iActiveWriters := 1, hashCurrentReaders := [1 \<mapsto> 1]\<rparr>) = Inr (sig, d') \<and>
             iActiveReaders d' = 0 \<and> hashCurrentReaders d' = [1 \<mapsto> 1] \<and>
             iActiveReaders d' \<noteq> holdSum d')"
proof -
  let ?d = "(newData True)\<lparr>currentWriter := 1, iActiveReaders := 1, iActiveWriters := 1,
                            hashCurrentReaders := [1 \<mapsto> 1]\<rparr>"
  have s: "iActiveReaders ?d = holdSum ?d"
    by (simp add: holdSum_def newData_def)
  have h: "0 < iActiveWriters ?d" "bRecursive ?d" "hashCurrentReaders ?d 2 = None"
    "0 < iActiveReaders ?d"
    by (simp_all add: newData_def)
  show ?thesis
    using release_ignores_caller [of ?d True 2] s h
    by (simp add: newData_def)
qed

section \<open>Nested read-holds of one thread\<close>

lemma lockForRead_held:
  "bRecursive d \<Longrightarrow> hashCurrentReaders d tid = Some k \<Longrightarrow>
     lockForRead tid d =
       (Returned, d\<lparr>hashCurrentReaders := (hashCurrentReaders d)(tid \<mapsto> k + 1),
                    iActiveReaders := iActiveReaders d + 1\<rparr>)"
  by (simp add: lockForRead_def)

lemma lockForRead_first:
  "bRecursive d \<Longrightarrow> hashCurrentReaders d tid = None \<Longrightarrow> fst (lockForRead tid d) = Returned \<Longrightarrow>
     lockForRead tid d =
       (Returned, d\<lparr>hashCurrentReaders := (hashCurrentReaders d)(tid \<mapsto> 1),
                    iActiveReaders := iActiveReaders d + 1\<rparr>)"
  by (cases "currentWriter d = tid"; cases "iActiveWriters d > 0 \<or> iWaitingWriters d > 0")
     (auto simp: lockForRead_def lockForRead_loop_def)


lemma lockForRead_times_held:
  "bRecursive d \<Longrightarrow> hashCurrentReaders d tid = Some k \<Longrightarrow>
     lockForRead_times n tid d =
       (Returned, d\<lparr>hashCurrentReaders := (hashCurrentReaders d)(tid \<mapsto> k + int n),
                    iActiveReaders := iActiveReaders d + int n\<rparr>)"
proof (induction n arbitrary: d k)
  case 0
  then have "(hashCurrentReaders d)(tid \<mapsto> k) = hashCurrentReaders d"
    by (simp add: map_upd_triv)
  then show ?case by simp
next
  case (Suc n)
  let ?d = "d\<lparr>hashCurrentReaders := (hashCurrentReaders d)(tid \<mapsto> k + 1),
              iActiveReaders := iActiveReaders d + 1\<rparr>"
  let ?e = "?d\<lparr>hashCurrentReaders := (hashCurrentReaders ?d)(tid \<mapsto> (k + 1) + int n),
               iActiveReaders := iActiveReaders ?d + int n\<rparr>"
  have ih: "lockForRead_times n tid ?d = (Returned, ?e)"
    by (rule Suc.IH) (use Suc.prems in simp_all)
  have s: "lockForRead_times (Suc n) tid d = lockForRead_times n tid ?d"
    using Suc.prems by (simp add: lockForRead_held)
  have e: "?e = d\<lparr>hashCurrentReaders := (hashCurrentReaders d)(tid \<mapsto> k + int (Suc n)),
                   iActiveReaders := iActiveReaders d + int (Suc n)\<rparr>"
    by (simp add: algebra_simps)
  show ?case
    unfolding s ih e ..
qed

lemma unlockRead_held:
  "bRecursive d \<Longrightarrow> hashCurrentReaders d tid = Some k \<Longrightarrow> 1 < k \<Longrightarrow> 0 < iActiveReaders d \<Longrightarrow>
     \<exists>sig. unlockRead asserts tid d =
       Inr (sig, d\<lparr>hashCurrentReaders := (hashCurrentReaders d)(tid \<mapsto> k - 1),
                   iActiveReaders := iActiveReaders d - 1\<rparr>)"
  by (simp add: unlockRead_def Let_def)

lemma unlockRead_last:
  "bRecursive d \<Longrightarrow> hashCurrentReaders d tid = Some 1 \<Longrightarrow> 0 < iActiveReaders d \<Longrightarrow>
     \<exists>sig. unlockRead asserts tid d =
       Inr (sig, d\<lparr>hashCurrentReaders := (hashCurrentReaders d)(tid := None),
                   iActiveReaders := iActiveReaders d - 1\<rparr>)"
  by (simp add: unlockRead_def Let_def)

lemma unlockRead_times_held:
  "bRecursive d \<Longrightarrow> hashCurrentReaders d tid = Some k \<Longrightarrow> int n < k \<Longrightarrow>
   int n \<le> iActiveReaders d \<Longrightarrow>
     unlockRead_times asserts n tid d =
       Inr (d\<lparr>hashCurrentReaders := (hashCurrentReaders d)(tid \<mapsto> k - int n),
              iActiveReaders := iActiveReaders d - int n\<rparr>)"
proof (induction n arbitrary: d k)
  case 0
  then have "(hashCurrentReaders d)(tid \<mapsto> k) = hashCurrentReaders d"
    by (simp add: map_upd_triv)
  then show ?case by simp
next
  case (Suc n)
  let ?d = "d\<lparr>hashCurrentReaders := (hashCurrentReaders d)(tid \<mapsto> k - 1),
              iActiveReaders := iActiveReaders d - 1\<rparr>"
  let ?e = "?d\<lparr>hashCurrentReaders := (hashCurrentReaders ?d)(tid \<mapsto> (k - 1) - int n),
               iActiveReaders := iActiveReaders ?d - int n\<rparr>"
  from Suc.prems obtain sig where u: "unlockRead asserts tid d = Inr (sig, ?d)"
    using unlockRead_held [of d tid k asserts] by auto
  have ih: "unlockRead_times asserts n tid ?d = Inr ?e"
    by (rule Suc.IH) (use Suc.prems in simp_all)
  have s: "unlockRead_times asserts (Suc n) tid d = unlockRead_times asserts n tid ?d"
    using u by simp
  have e: "?e = d\<lparr>hashCurrentReaders := (hashCurrentReaders d)(tid \<mapsto> k - int (Suc n)),
                   iActiveReaders := iActiveReaders d - int (Suc n)\<rparr>"
    by (simp add: algebra_simps)
  show ?case
    unfolding s ih e ..
qed

lemma unlockRead_times_snoc:
  "unlockRead_times asserts n tid d = Inr d1 \<Longrightarrow> unlockRead asserts tid d1 = Inr (sig, d2) \<Longrightarrow>
     unlockRead_times asserts (Suc n) tid d = Inr d2"
proof (induction n arbitrary: d)
  case 0
  then show ?case by simp
next
  case (Suc n)
  from Suc.prems(1) obtain sig' d' where
    u: "unlockRead asserts tid d = Inr (sig', d')" and
    r: "unlockRead_times asserts n tid d' = Inr d1"
    by (auto split: sum.splits)
  have "unlockRead_times asserts (Suc n) tid d' = Inr d2"
    using Suc.IH [OF r Suc.prems(2)] .
  moreover have "unlockRead_times asserts (Suc (Suc n)) tid d =
                 unlockRead_times asserts (Suc n) tid d'"
    using u by simp
  ultimately show ?case by simp
qed

lemma read_reentrancy_held:
  assumes "bRecursive d" "hashCurrentReaders d tid = Some k" "0 < k" "0 \<le> iActiveReaders d"
  shows "\<exists>d1. lockForRead_times n tid d = (Returned, d1) \<and>
              hashCurrentReaders d1 tid = Some (k + int n) \<and>
              iActiveReaders d1 = iActiveReaders d + int n \<and>
              unlockRead_times asserts n tid d1 = Inr d"
proof -
  let ?d1 = "d\<lparr>hashCurrentReaders := (hashCurrentReaders d)(tid \<mapsto> k + int n),
               iActiveReaders := iActiveReaders d + int n\<rparr>"
  have a: "lockForRead_times n tid d = (Returned, ?d1)"
    using assms by (simp add: lockForRead_times_held)
  have "unlockRead_times asserts n tid ?d1 =
       Inr (?d1\<lparr>hashCurrentReaders := (hashCurrentReaders ?d1)(tid \<mapsto> (k + int n) - int n),
              iActiveReaders := iActiveReaders ?d1 - int n\<rparr>)"
    by (rule unlockRead_times_held) (use assms in simp_all)
  moreover have "(hashCurrentReaders d)(tid \<mapsto> k) = hashCurrentReaders d"
    using assms by (simp add: map_upd_triv)
  ultimately have "unlockRead_times asserts n tid ?d1 = Inr d"
    by simp
  with a show ?thesis by simp
qed

lemma read_reentrancy_fresh:
  assumes "bRecursive d" "hashCurrentReaders d tid = None" "0 \<le> iActiveReaders d"
    "fst (lockForRead tid d) = Returned"
  shows "\<exists>d1. lockForRead_times (Suc n) tid d = (Returned, d1) \<and>
              hashCurrentReaders d1 tid = Some (int (Suc n)) \<and>
              iActiveReaders d1 = iActiveReaders d + int (Suc n) \<and>
              unlockRead_times asserts (Suc n) tid d1 = Inr d"
proof -
  let ?d0 = "d\<lparr>hashCurrentReaders := (hashCurrentReaders d)(tid \<mapsto> 1),
               iActiveReaders := iActiveReaders d + 1\<rparr>"
  let ?d1 = "?d0\<lparr>hashCurrentReaders := (hashCurrentReaders ?d0)(tid \<mapsto> 1 + int n),
               iActiveReaders := iActiveReaders ?d0 + int n\<rparr>"
  have f: "lockForRead tid d = (Returned, ?d0)"
    using assms by (simp add: lockForRead_first)
  have "lockForRead_times n tid ?d0 = (Returned, ?d1)"
    by (rule lockForRead_times_held) (use assms in simp_all)
  with f have a: "lockForRead_times (Suc n) tid d = (Returned, ?d1)"
    by simp
  have "unlockRead_times asserts n tid ?d1 =
       Inr (?d1\<lparr>hashCurrentReaders := (hashCurrentReaders ?d1)(tid \<mapsto> (1 + int n) - int n),
              iActiveReaders := iActiveReaders ?d1 - int n\<rparr>)"
    by (rule unlockRead_times_held) (use assms in simp_all)
  then have b: "unlockRead_times asserts n tid ?d1 = Inr ?d0"
    by simp
  obtain sig where "unlockRead asserts tid ?d0 =
       Inr (sig, ?d0\<lparr>hashCurrentReaders := (hashCurrentReaders ?d0)(tid := None),
                   iActiveReaders := iActiveReaders ?d0 - 1\<rparr>)"
    using unlockRead_last [of ?d0 tid asserts] assms by auto
  moreover have "(hashCurrentReaders d)(tid := None) = hashCurrentReaders d"
    using assms by (simp add: fun_upd_idem)
  ultimately have c: "unlockRead asserts tid ?d0 = Inr (sig, d)"
    by simp
  have "unlockRead_times asserts (Suc n) tid ?d1 = Inr d"
    using unlockRead_times_snoc [OF b c] .
  with a show ?thesis by simp
qed

text \<open>
  C8. Recursive mode; a state in which the counter of active readers is not negative and
  an entry of the calling thread, if there is one, is positive (every reachable state is
  one: \<open>reachable_data_model\<close> below); the thread's first
  \<^verbatim>\<open>lockForRead\<close> is granted (with nobody else running, a suspended call would never
  resume). Then for every \<open>N \<ge> 1\<close>, \<open>N\<close> calls of \<^verbatim>\<open>lockForRead\<close> all return, with the
  thread's entry and \<^verbatim>\<open>iActiveReaders\<close> raised by \<open>N\<close>, and \<open>N\<close> calls of \<^verbatim>\<open>unlockRead\<close>
  then return the whole state, table included, to what it was: a thread that had no
  entry has none again.
\<close>

theorem read_reentrancy:
  "bRecursive d \<and> 0 \<le> iActiveReaders d \<and>
   (case hashCurrentReaders d tid of Some k \<Rightarrow> 0 < k | None \<Rightarrow> True) \<and>
   fst (lockForRead tid d) = Returned \<and> 1 \<le> N \<longrightarrow>
     (\<exists>d1. lockForRead_times N tid d = (Returned, d1) \<and>
           hashCurrentReaders d1 tid = Some (ownReaders d tid + int N) \<and>
           iActiveReaders d1 = iActiveReaders d + int N \<and>
           unlockRead_times asserts N tid d1 = Inr d)"
proof (intro impI)
  assume h: "bRecursive d \<and> 0 \<le> iActiveReaders d \<and>
   (case hashCurrentReaders d tid of Some k \<Rightarrow> 0 < k | None \<Rightarrow> True) \<and>
   fst (lockForRead tid d) = Returned \<and> 1 \<le> N"
  show "\<exists>d1. lockForRead_times N tid d = (Returned, d1) \<and>
           hashCurrentReaders d1 tid = Some (ownReaders d tid + int N) \<and>
           iActiveReaders d1 = iActiveReaders d + int N \<and>
           unlockRead_times asserts N tid d1 = Inr d"
  proof (cases "hashCurrentReaders d tid")
    case None
    from h obtain n where n: "N = Suc n"
      by (cases N) auto
    have o: "ownReaders d tid = 0"
      using None by (simp add: ownReaders_def)
    show ?thesis
      unfolding n o
      using read_reentrancy_fresh [of d tid n asserts] h None by simp
  next
    case (Some k)
    have o: "ownReaders d tid = k"
      using Some h by (simp add: ownReaders_def)
    show ?thesis
      unfolding o
      using read_reentrancy_held [of d tid k N asserts] h Some by simp
  qed
qed

theorem read_reentrancy_witness:
  "\<exists>d1. lockForRead_times 3 4 (newData True) = (Returned, d1) \<and>
        hashCurrentReaders d1 4 = Some 3 \<and>
        iActiveReaders d1 = 3 \<and>
        unlockRead_times True 3 4 d1 = Inr (newData True)"
proof -
  have "fst (lockForRead 4 (newData True)) = Returned"
    by (simp add: lockForRead_def lockForRead_loop_def newData_def)
  then show ?thesis
    using read_reentrancy [of "newData True" 4 3 True]
    by (simp add: newData_def ownReaders_def)
qed

section \<open>The invariant of the running system\<close>

lemma count_other_less_size: "u \<in># M \<Longrightarrow> u \<noteq> t \<Longrightarrow> count M t < size M"
proof -
  assume u: "u \<in># M" and n: "u \<noteq> t"
  have "count M t = count (M - {#u#}) t"
    using n by simp
  also have "\<dots> \<le> size (M - {#u#})"
    by (rule count_le_size)
  also have "\<dots> < size M"
    using size_Suc_Diff1 [OF u] by simp
  finally show ?thesis .
qed

lemma lock_invI:
  "counters_inv s \<Longrightarrow> table_inv s \<Longrightarrow> writer_inv s \<Longrightarrow> frames_inv s \<Longrightarrow> exclusion s \<Longrightarrow>
     lock_inv s"
  by (simp add: lock_inv_def)

lemma frame_ok_reader:
  assumes "lock_inv s" and f: "frames s t = InReaderWait self"
  shows "self = (if bRecursive (lockData s) then t else 0) \<and>
     (bRecursive (lockData s) \<longrightarrow> t \<notin># readHeld s)"
proof -
  from assms(1) have "\<forall>t. frame_ok s t (frames s t)"
    by (simp add: lock_inv_def frames_inv_def)
  then have "frame_ok s t (frames s t)" ..
  then show ?thesis
    unfolding f by (simp add: frame_ok_def)
qed

lemma frame_ok_writer:
  assumes "lock_inv s" and f: "frames s t = InWriterWait self own"
  shows "self = (if bRecursive (lockData s) then t else 0) \<and>
     own = (if bRecursive (lockData s) then int (count (readHeld s) t) else 0)"
proof -
  from assms(1) have "\<forall>t. frame_ok s t (frames s t)"
    by (simp add: lock_inv_def frames_inv_def)
  then have "frame_ok s t (frames s t)" ..
  then show ?thesis
    unfolding f by (simp add: frame_ok_def)
qed

lemma in_mset_count_cong: "count M' t = count M t \<Longrightarrow> (t \<in># M') = (t \<in># M)"
  by (metis count_greater_zero_iff)

lemma frame_ok_cong:
  "bRecursive (lockData s') = bRecursive (lockData s) \<Longrightarrow>
   count (readHeld s') t = count (readHeld s) t \<Longrightarrow>
     frame_ok s' t fr = frame_ok s t fr"
  by (simp add: frame_ok_def in_mset_count_cong [of "readHeld s'" t "readHeld s"]
           split: frame.splits)

lemma frames_inv_step:
  assumes "lock_inv s"
    and "bRecursive (lockData s') = bRecursive (lockData s)"
    and "\<And>t. t \<noteq> tid \<Longrightarrow> count (readHeld s') t = count (readHeld s) t"
    and "\<And>t. t \<noteq> tid \<Longrightarrow> frames s' t = frames s t"
    and "frame_ok s' tid (frames s' tid)"
  shows "frames_inv s'"
  unfolding frames_inv_def
proof
  fix t
  from assms(1) have a: "frame_ok s t (frames s t)"
    by (simp add: lock_inv_def frames_inv_def)
  show "frame_ok s' t (frames s' t)"
  proof (cases "t = tid")
    case True
    with assms(5) show ?thesis by simp
  next
    case False
    with assms(2,3,4) a show ?thesis
      using frame_ok_cong [of s' s t "frames s t"] by simp
  qed
qed

lemma ownReaders_count:
  "lock_inv s \<Longrightarrow> ownReaders (lockData s) t =
      (if bRecursive (lockData s) then int (count (readHeld s) t) else 0)"
  using not_in_iff [of t "readHeld s"]
  by (auto simp: lock_inv_def table_inv_def ownReaders_def)

lemma only_own_readers:
  assumes "lock_inv s" "iActiveReaders (lockData s) \<le> 
      (if bRecursive (lockData s) then int (count (readHeld s) t) else 0)"
    "u \<in># readHeld s"
  shows "u = t"
proof (rule ccontr)
  assume "u \<noteq> t"
  with assms(3) have "count (readHeld s) t < size (readHeld s)"
    by (rule count_other_less_size)
  moreover have "iActiveReaders (lockData s) = int (size (readHeld s))"
    using assms(1) by (simp add: lock_inv_def counters_inv_def)
  ultimately show False
    using assms(2) by (simp split: if_splits)
qed

lemma table_entry:
  assumes "lock_inv s" "bRecursive (lockData s)"
  shows "hashCurrentReaders (lockData s) t = Some n \<longleftrightarrow>
           t \<in># readHeld s \<and> n = int (count (readHeld s) t)"
    and "hashCurrentReaders (lockData s) t = None \<longleftrightarrow> count (readHeld s) t = 0"
proof -
  from assms have "hashCurrentReaders (lockData s) t =
      (if t \<in># readHeld s then Some (int (count (readHeld s) t)) else None)"
    by (simp add: lock_inv_def table_inv_def)
  then show "hashCurrentReaders (lockData s) t = Some n \<longleftrightarrow>
           t \<in># readHeld s \<and> n = int (count (readHeld s) t)"
    and "hashCurrentReaders (lockData s) t = None \<longleftrightarrow> count (readHeld s) t = 0"
    using not_in_iff [of t "readHeld s"] by auto
qed

lemma no_writers:
  "lock_inv s \<Longrightarrow> iActiveWriters (lockData s) \<le> 0 \<Longrightarrow> writeHeld s = {#}"
  by (simp add: lock_inv_def counters_inv_def)

subsection \<open>Every step keeps the invariant\<close>

lemma step_callLockForRead:
  assumes inv: "lock_inv s" and t: "tid \<noteq> 0" and fr: "frames s tid = Returned"
    and call: "lockForRead tid (lockData s) = (f, d')"
  shows "lock_inv (s\<lparr>lockData := d', frames := (frames s)(tid := f),
          readHeld := (if f = Returned then add_mset tid (readHeld s) else readHeld s)\<rparr>)"
    (is "lock_inv ?s")
  using call
proof (cases rule: lockForRead_cases)
  case (reenter n)
  from reenter(1,2) inv have h: "tid \<in># readHeld s" and n: "n = int (count (readHeld s) tid)"
    by (simp_all add: table_entry)
  show ?thesis
  proof (rule lock_invI)
    show "counters_inv ?s"
      using reenter(3,4) inv by (simp add: lock_inv_def counters_inv_def)
    show "table_inv ?s"
      using reenter inv n by (auto simp: lock_inv_def table_inv_def)
    show "writer_inv ?s"
      using reenter(3,4) inv by (simp add: lock_inv_def writer_inv_def)
    show "frames_inv ?s"
      using reenter(3,4) by (intro frames_inv_step [OF inv, of _ tid]) (simp_all add: frame_ok_def)
    show "exclusion ?s"
      using reenter(3,4) inv h by (auto simp: lock_inv_def exclusion_def)
  qed
next
  case promote
  from promote(1,2) inv have c: "count (readHeld s) tid = 0"
    by (simp add: table_entry)
  from promote(1,3) inv t have w: "\<And>u. u \<in># writeHeld s \<Longrightarrow> u = tid"
    by (simp add: lock_inv_def writer_inv_def)
  show ?thesis
  proof (rule lock_invI)
    show "counters_inv ?s"
      using promote(4,5) inv by (simp add: lock_inv_def counters_inv_def)
    show "table_inv ?s"
      using promote inv c by (auto simp: lock_inv_def table_inv_def)
    show "writer_inv ?s"
      using promote(4,5) inv by (simp add: lock_inv_def writer_inv_def)
    show "frames_inv ?s"
      using promote(4,5) by (intro frames_inv_step [OF inv, of _ tid]) (simp_all add: frame_ok_def)
    show "exclusion ?s"
      using promote(4,5) inv w by (auto simp: lock_inv_def exclusion_def)
  qed
next
  case granted
  from granted(1) inv have c: "bRecursive (lockData s) \<longrightarrow> count (readHeld s) tid = 0"
    by (simp add: table_entry)
  from granted(2) inv have w: "writeHeld s = {#}"
    by (rule no_writers [rotated])
  show ?thesis
  proof (rule lock_invI)
    show "counters_inv ?s"
      using granted(3,4) inv by (simp add: lock_inv_def counters_inv_def)
    show "table_inv ?s"
      using granted(3,4) inv c by (auto simp: lock_inv_def table_inv_def)
    show "writer_inv ?s"
      using granted(3,4) inv by (simp add: lock_inv_def writer_inv_def)
    show "frames_inv ?s"
      using granted(3,4) by (intro frames_inv_step [OF inv, of _ tid]) (simp_all add: frame_ok_def)
    show "exclusion ?s"
      using granted(3,4) w by (simp add: exclusion_def)
  qed
next
  case suspended
  from suspended(1) inv have c: "bRecursive (lockData s) \<longrightarrow> tid \<notin># readHeld s"
    using not_in_iff [of tid "readHeld s"] by (simp add: table_entry)
  show ?thesis
  proof (rule lock_invI)
    show "counters_inv ?s"
      using suspended inv by (simp add: lock_inv_def counters_inv_def)
    show "table_inv ?s"
      using suspended inv by (simp add: lock_inv_def table_inv_def)
    show "writer_inv ?s"
      using suspended inv by (simp add: lock_inv_def writer_inv_def)
    show "frames_inv ?s"
      using suspended c
      by (intro frames_inv_step [OF inv, of _ tid]) (simp_all add: frame_ok_def)
    show "exclusion ?s"
      using suspended inv by (simp add: lock_inv_def exclusion_def)
  qed
qed

lemma step_resumeLockForRead:
  assumes inv: "lock_inv s" and t: "tid \<noteq> 0" and fr: "frames s tid = InReaderWait self"
    and call: "lockForRead_resume self (lockData s) = (f, d')"
  shows "lock_inv (s\<lparr>lockData := d', frames := (frames s)(tid := f),
          readHeld := (if f = Returned then add_mset tid (readHeld s) else readHeld s)\<rparr>)"
    (is "lock_inv ?s")
proof -
  from inv fr have self: "self = (if bRecursive (lockData s) then tid else 0)"
    and fresh: "bRecursive (lockData s) \<longrightarrow> tid \<notin># readHeld s"
    using frame_ok_reader by blast+
  from fresh have fresh': "bRecursive (lockData s) \<longrightarrow> count (readHeld s) tid = 0"
    using not_in_iff [of tid "readHeld s"] by simp
  from call show ?thesis
  proof (cases rule: lockForRead_resume_cases)
    case granted
    from granted(1) inv have w: "writeHeld s = {#}"
      by (rule no_writers [rotated])
    show ?thesis
    proof (rule lock_invI)
      show "counters_inv ?s"
        using granted(2,3) inv by (simp add: lock_inv_def counters_inv_def)
      show "table_inv ?s"
        using granted(2,3) inv self fresh fresh' by (auto simp: lock_inv_def table_inv_def)
      show "writer_inv ?s"
        using granted(2,3) inv by (simp add: lock_inv_def writer_inv_def)
      show "frames_inv ?s"
        using granted(2,3) by (intro frames_inv_step [OF inv, of _ tid]) (simp_all add: frame_ok_def)
      show "exclusion ?s"
        using granted(2,3) w by (simp add: exclusion_def)
    qed
  next
    case suspended
    have "?s = s"
      using suspended fr by (simp add: fun_upd_idem)
    with inv show ?thesis by simp
  qed
qed

lemma step_callLockForWrite:
  assumes inv: "lock_inv s" and t: "tid \<noteq> 0" and fr: "frames s tid = Returned"
    and call: "lockForWrite tid (lockData s) = (f, d')"
  shows "lock_inv (s\<lparr>lockData := d', frames := (frames s)(tid := f),
          writeHeld := (if f = Returned then add_mset tid (writeHeld s) else writeHeld s)\<rparr>)"
    (is "lock_inv ?s")
proof -
  note own = ownReaders_count [OF inv, of tid]
  from call show ?thesis
  proof (cases rule: lockForWrite_cases)
    case reenter
    from reenter(1,2) inv t have h: "tid \<in># writeHeld s"
      by (simp add: lock_inv_def writer_inv_def)
    show ?thesis
    proof (rule lock_invI)
      show "counters_inv ?s"
        using reenter(3,4) inv by (simp add: lock_inv_def counters_inv_def)
      show "table_inv ?s"
        using reenter(3,4) inv by (simp add: lock_inv_def table_inv_def)
      show "writer_inv ?s"
        using reenter inv t by (auto simp: lock_inv_def writer_inv_def)
      show "frames_inv ?s"
        using reenter(3,4) by (intro frames_inv_step [OF inv, of _ tid]) (simp_all add: frame_ok_def)
      show "exclusion ?s"
        using reenter(3,4) inv h by (auto simp: lock_inv_def exclusion_def)
    qed
  next
    case granted
    from granted(1) inv have w: "writeHeld s = {#}"
      by (rule no_writers [rotated])
    from granted(2) inv own have r: "\<And>u. u \<in># readHeld s \<Longrightarrow> u = tid"
      using only_own_readers [of s tid] by simp
    show ?thesis
    proof (rule lock_invI)
      show "counters_inv ?s"
        using granted(3,4) inv by (simp add: lock_inv_def counters_inv_def)
      show "table_inv ?s"
        using granted(3,4) inv by (simp add: lock_inv_def table_inv_def)
      show "writer_inv ?s"
        using granted(3,4) inv w t by (auto simp: lock_inv_def writer_inv_def)
      show "frames_inv ?s"
        using granted(3,4) by (intro frames_inv_step [OF inv, of _ tid]) (simp_all add: frame_ok_def)
      show "exclusion ?s"
        using granted(3,4) w r by (auto simp: exclusion_def)
    qed
  next
    case suspended
    show ?thesis
    proof (rule lock_invI)
      show "counters_inv ?s"
        using suspended inv by (simp add: lock_inv_def counters_inv_def)
      show "table_inv ?s"
        using suspended inv by (simp add: lock_inv_def table_inv_def)
      show "writer_inv ?s"
        using suspended inv by (simp add: lock_inv_def writer_inv_def)
      show "frames_inv ?s"
        using suspended own
        by (intro frames_inv_step [OF inv, of _ tid]) (simp_all add: frame_ok_def)
      show "exclusion ?s"
        using suspended inv by (simp add: lock_inv_def exclusion_def)
    qed
  qed
qed

lemma step_resumeLockForWrite:
  assumes inv: "lock_inv s" and t: "tid \<noteq> 0" and fr: "frames s tid = InWriterWait self own"
    and call: "lockForWrite_resume self own (lockData s) = (f, d')"
  shows "lock_inv (s\<lparr>lockData := d', frames := (frames s)(tid := f),
          writeHeld := (if f = Returned then add_mset tid (writeHeld s) else writeHeld s)\<rparr>)"
    (is "lock_inv ?s")
proof -
  from inv fr have self: "self = (if bRecursive (lockData s) then tid else 0)"
    and own: "own = (if bRecursive (lockData s) then int (count (readHeld s) tid) else 0)"
    using frame_ok_writer by blast+
  from call show ?thesis
  proof (cases rule: lockForWrite_resume_cases)
    case granted
    from granted(1) inv have w: "writeHeld s = {#}"
      by (rule no_writers [rotated])
    from granted(2) inv own have r: "\<And>u. u \<in># readHeld s \<Longrightarrow> u = tid"
      using only_own_readers [of s tid] by simp
    show ?thesis
    proof (rule lock_invI)
      show "counters_inv ?s"
        using granted(3,4) inv by (simp add: lock_inv_def counters_inv_def)
      show "table_inv ?s"
        using granted(3,4) inv by (simp add: lock_inv_def table_inv_def)
      show "writer_inv ?s"
        using granted(3,4) inv w t self by (auto simp: lock_inv_def writer_inv_def)
      show "frames_inv ?s"
        using granted(3,4) by (intro frames_inv_step [OF inv, of _ tid]) (simp_all add: frame_ok_def)
      show "exclusion ?s"
        using granted(3,4) w r by (auto simp: exclusion_def)
    qed
  next
    case suspended
    have "?s = s"
      using suspended fr by (simp add: fun_upd_idem)
    with inv show ?thesis by simp
  qed
qed

lemma step_callUnlockRead:
  assumes inv: "lock_inv s" and t: "tid \<noteq> 0" and fr: "frames s tid = Returned"
    and held: "tid \<in># readHeld s"
    and call: "unlockRead asserts tid (lockData s) = Inr (sig, d')"
  shows "lock_inv (s\<lparr>lockData := d', readHeld := readHeld s - {#tid#}\<rparr>)"
    (is "lock_inv ?s")
proof -
  note d' = unlockRead_state [OF call]
  from held have sz: "int (size (readHeld s - {#tid#})) = int (size (readHeld s)) - 1"
    using size_Suc_Diff1 [OF held] by simp
  have tbl: "bRecursive (lockData s) \<Longrightarrow>
      hashCurrentReaders (lockData s) tid = Some (int (count (readHeld s) tid))"
    using inv held by (simp add: table_entry)
  show ?thesis
  proof (rule lock_invI)
    show "counters_inv ?s"
      using inv sz by (subst d') (simp add: lock_inv_def counters_inv_def)
    show "table_inv ?s"
    proof (cases "bRecursive (lockData s)")
      case False
      with inv show ?thesis
        by (subst d') (simp add: lock_inv_def table_inv_def)
    next
      case True
      have "hashCurrentReaders d' u =
          (if u \<in># readHeld s - {#tid#} then Some (int (count (readHeld s - {#tid#}) u))
           else None)" for u
      proof (cases "u = tid")
        case False
        with inv True show ?thesis
          by (subst d') (auto simp: lock_inv_def table_inv_def tbl in_diff_count)
      next
        case u: True
        show ?thesis
        proof (cases "count (readHeld s) tid = 1")
          case True
          with \<open>bRecursive (lockData s)\<close> u show ?thesis
            by (subst d') (simp add: tbl in_diff_count)
        next
          case False
          moreover have "count (readHeld s) tid \<noteq> 0"
            using held not_in_iff [of tid "readHeld s"] by blast
          ultimately have "1 < count (readHeld s) tid" by arith
          with \<open>bRecursive (lockData s)\<close> u show ?thesis
            by (subst d') (simp add: tbl in_diff_count of_nat_diff)
        qed
      qed
      moreover have "bRecursive d' = bRecursive (lockData s)"
        by (subst d') simp
      ultimately show ?thesis
        using True by (simp add: table_inv_def)
    qed
    show "writer_inv ?s"
      using inv by (subst d') (simp add: lock_inv_def writer_inv_def)
    show "frames_inv ?s"
      using fr by (intro frames_inv_step [OF inv, of _ tid]; subst d')
                  (simp_all add: frame_ok_def)
    show "exclusion ?s"
      using inv by (auto simp: lock_inv_def exclusion_def dest: in_diffD)
  qed
qed

lemma step_callUnlockWrite:
  assumes inv: "lock_inv s" and t: "tid \<noteq> 0" and fr: "frames s tid = Returned"
    and held: "tid \<in># writeHeld s"
    and call: "unlockWrite asserts (lockData s) = Inr (sig, d')"
  shows "lock_inv (s\<lparr>lockData := d', writeHeld := writeHeld s - {#tid#}\<rparr>)"
    (is "lock_inv ?s")
proof -
  note d' = unlockWrite_state [OF call]
  from held have sz: "int (size (writeHeld s - {#tid#})) = int (size (writeHeld s)) - 1"
    using size_Suc_Diff1 [OF held] by simp
  from inv have aw: "iActiveWriters (lockData s) = int (size (writeHeld s))"
    by (simp add: lock_inv_def counters_inv_def)
  from inv have ex: "\<And>v u. v \<in># writeHeld s \<Longrightarrow> u \<in># writeHeld s \<or> u \<in># readHeld s \<Longrightarrow> u = v"
    unfolding lock_inv_def exclusion_def by blast
  have sub: "\<And>u. u \<in># writeHeld s - {#tid#} \<Longrightarrow> u \<in># writeHeld s"
    by (rule in_diffD)
  have "iActiveWriters (lockData s) - 1 = int (size (writeHeld s - {#tid#}))"
    using aw sz by simp
  then have last: "iActiveWriters (lockData s) - 1 = 0 \<longleftrightarrow> writeHeld s - {#tid#} = {#}"
    by (simp only: of_nat_eq_0_iff size_eq_0_iff_empty)
  show ?thesis
  proof (rule lock_invI)
    show "counters_inv ?s"
      using inv sz by (subst d') (simp add: lock_inv_def counters_inv_def)
    show "table_inv ?s"
      using inv by (subst d') (simp add: lock_inv_def table_inv_def)
    show "writer_inv ?s"
    proof (cases "bRecursive (lockData s)")
      case False
      with inv show ?thesis
        by (subst d') (simp add: lock_inv_def writer_inv_def)
    next
      case True
      with inv held t have cw: "currentWriter (lockData s) = tid"
        by (simp add: lock_inv_def writer_inv_def)
      have rec': "bRecursive d'"
        using True by (subst d') simp
      have cw': "currentWriter d' = (if writeHeld s - {#tid#} = {#} then 0 else tid)"
        using last cw by (subst d') simp
      have "(u \<in># writeHeld s - {#tid#}) = (currentWriter d' = u \<and> u \<noteq> 0)" for u
      proof (cases "writeHeld s - {#tid#} = {#}")
        case True
        then show ?thesis
          unfolding cw' by (simp; arith)
      next
        case False
        then obtain v where v: "v \<in># writeHeld s - {#tid#}"
          by (auto simp: multiset_nonemptyE)
        with sub ex held have "v = tid" by blast
        with v have m: "tid \<in># writeHeld s - {#tid#}" by simp
        have "u \<in># writeHeld s - {#tid#} \<Longrightarrow> u = tid"
          using sub ex held by blast
        with m t False show ?thesis
          unfolding cw' by auto
      qed
      with rec' show ?thesis
        by (simp add: writer_inv_def)
    qed
    show "frames_inv ?s"
      using fr by (intro frames_inv_step [OF inv, of _ tid]; subst d')
                  (simp_all add: frame_ok_def)
    show "exclusion ?s"
      unfolding exclusion_def
    proof (intro allI impI)
      fix v u
      assume "v \<in># writeHeld ?s \<and> (u \<in># writeHeld ?s \<or> u \<in># readHeld ?s)"
      then have "v \<in># writeHeld s" "u \<in># writeHeld s \<or> u \<in># readHeld s"
        using sub by auto
      then show "u = v" by (rule ex)
    qed
  qed
qed

lemma step_preserves: "step asserts s s' \<Longrightarrow> lock_inv s \<Longrightarrow> lock_inv s'"
proof (induction rule: step.induct)
  case (callLockForRead tid s f d')
  then show ?case by (intro step_callLockForRead)
next
  case (resumeLockForRead tid s self f d')
  then show ?case by (intro step_resumeLockForRead)
next
  case (callLockForWrite tid s f d')
  then show ?case by (intro step_callLockForWrite)
next
  case (resumeLockForWrite tid s self own f d')
  then show ?case by (intro step_resumeLockForWrite)
next
  case (callUnlockRead tid s sig d')
  then show ?case by (intro step_callUnlockRead)
next
  case (callUnlockWrite tid s sig d')
  then show ?case by (intro step_callUnlockWrite)
qed

lemma step_mode: "step asserts s s' \<Longrightarrow> bRecursive (lockData s') = bRecursive (lockData s)"
proof (induction rule: step.induct)
  case (callLockForRead tid s f d')
  from callLockForRead(3) show ?case
    by (cases rule: lockForRead_cases) (simp_all split: if_splits)
next
  case (resumeLockForRead tid s self f d')
  from resumeLockForRead(3) show ?case
    by (cases rule: lockForRead_resume_cases) (simp_all split: if_splits)
next
  case (callLockForWrite tid s f d')
  from callLockForWrite(3) show ?case
    by (cases rule: lockForWrite_cases) simp_all
next
  case (resumeLockForWrite tid s self own f d')
  from resumeLockForWrite(3) show ?case
    by (cases rule: lockForWrite_resume_cases) simp_all
next
  case (callUnlockRead tid s sig d')
  show ?case
    by (simp, subst unlockRead_state [OF callUnlockRead(4)]) simp
next
  case (callUnlockWrite tid s sig d')
  show ?case
    by (simp, subst unlockWrite_state [OF callUnlockWrite(4)]) simp
qed

lemma newSystem_inv: "lock_inv (newSystem recursive)"
  by (auto simp: lock_inv_def counters_inv_def table_inv_def writer_inv_def frames_inv_def
        frame_ok_def exclusion_def newSystem_def newData_def)

lemma reachable_inv:
  assumes "reachable asserts recursive s"
  shows "lock_inv s \<and> bRecursive (lockData s) = recursive"
  using assms unfolding reachable_def
proof (induction rule: rtranclp_induct)
  case base
  show ?case
    using newSystem_inv by (simp add: newSystem_def newData_def)
next
  case (step s s')
  then show ?case
    using step_preserves step_mode by metis
qed

lemma reachable_newSystem: "reachable asserts recursive (newSystem recursive)"
  by (simp add: reachable_def)

lemma reachable_step:
  "reachable asserts recursive s \<Longrightarrow> step asserts s s' \<Longrightarrow> reachable asserts recursive s'"
  unfolding reachable_def by (rule rtranclp.rtrancl_into_rtrancl)

text \<open>A release that is paired with a hold never fails its assertion.\<close>

lemma paired_release_passes:
  assumes "reachable asserts recursive s"
  shows "tid \<in># readHeld s \<Longrightarrow> \<exists>sig d'. unlockRead asserts tid (lockData s) = Inr (sig, d')"
    and "tid \<in># writeHeld s \<Longrightarrow> \<exists>sig d'. unlockWrite asserts (lockData s) = Inr (sig, d')"
proof -
  from assms have c: "iActiveReaders (lockData s) = int (size (readHeld s))"
    "iActiveWriters (lockData s) = int (size (writeHeld s))"
    using reachable_inv by (auto simp: lock_inv_def counters_inv_def)
  show "\<exists>sig d'. unlockRead asserts tid (lockData s) = Inr (sig, d')" if "tid \<in># readHeld s"
  proof -
    from that have "readHeld s \<noteq> {#}" by auto
    with c have "0 < iActiveReaders (lockData s)" by (simp add: nonempty_has_size)
    then show ?thesis by (simp add: unlockRead_def Let_def)
  qed
  show "\<exists>sig d'. unlockWrite asserts (lockData s) = Inr (sig, d')" if "tid \<in># writeHeld s"
  proof -
    from that have "writeHeld s \<noteq> {#}" by auto
    with c have "0 < iActiveWriters (lockData s)" by (simp add: nonempty_has_size)
    then show ?thesis by (simp add: unlockWrite_def Let_def)
  qed
qed

section \<open>Mutual exclusion\<close>

text \<open>
  C1. In every state a lock of either mode can reach through calls of the four operations
  by any threads, each release paired with a hold of the releasing thread: a thread that
  holds write access is the only thread holding write access, and no other thread holds
  read access. The writer itself may hold read access (promotion).
\<close>

theorem mutual_exclusion:
  "reachable asserts recursive s \<and> t \<in># writeHeld s \<and> u \<noteq> t \<longrightarrow>
     u \<notin># writeHeld s \<and> u \<notin># readHeld s"
proof (intro impI)
  assume h: "reachable asserts recursive s \<and> t \<in># writeHeld s \<and> u \<noteq> t"
  then have "exclusion s"
    using reachable_inv by (auto simp: lock_inv_def)
  with h show "u \<notin># writeHeld s \<and> u \<notin># readHeld s"
    unfolding exclusion_def by blast
qed

theorem mutual_exclusion_witness:
  "reachable True True
     ((newSystem True)
        \<lparr>lockData := (newData True)\<lparr>currentWriter := 1, iActiveReaders := 1, iActiveWriters := 1,
                                   hashCurrentReaders := [1 \<mapsto> 1]\<rparr>,
         readHeld := {#1#}, writeHeld := {#1#}\<rparr>) \<and>
   1 \<in># writeHeld
     ((newSystem True)
        \<lparr>lockData := (newData True)\<lparr>currentWriter := 1, iActiveReaders := 1, iActiveWriters := 1,
                                   hashCurrentReaders := [1 \<mapsto> 1]\<rparr>,
         readHeld := {#1#}, writeHeld := {#1#}\<rparr>) \<and>
   2 \<notin># writeHeld
     ((newSystem True)
        \<lparr>lockData := (newData True)\<lparr>currentWriter := 1, iActiveReaders := 1, iActiveWriters := 1,
                                   hashCurrentReaders := [1 \<mapsto> 1]\<rparr>,
         readHeld := {#1#}, writeHeld := {#1#}\<rparr>) \<and>
   2 \<notin># readHeld
     ((newSystem True)
        \<lparr>lockData := (newData True)\<lparr>currentWriter := 1, iActiveReaders := 1, iActiveWriters := 1,
                                   hashCurrentReaders := [1 \<mapsto> 1]\<rparr>,
         readHeld := {#1#}, writeHeld := {#1#}\<rparr>)"
proof -
  let ?d1 = "(newData True)\<lparr>iActiveReaders := 1, hashCurrentReaders := [1 \<mapsto> 1]\<rparr>"
  let ?s1 = "(newSystem True)\<lparr>lockData := ?d1, readHeld := {#1#}\<rparr>"
  let ?d2 = "(newData True)\<lparr>currentWriter := 1, iActiveReaders := 1, iActiveWriters := 1,
                             hashCurrentReaders := [1 \<mapsto> 1]\<rparr>"
  let ?s2 = "(newSystem True)\<lparr>lockData := ?d2, readHeld := {#1#}, writeHeld := {#1#}\<rparr>"
  have "step True (newSystem True)
          ((newSystem True)\<lparr>lockData := ?d1,
             frames := (frames (newSystem True))(1 := Returned),
             readHeld := (if Returned = Returned then add_mset 1 (readHeld (newSystem True))
                          else readHeld (newSystem True))\<rparr>)"
    by (rule step.callLockForRead)
       (simp_all add: newSystem_def newData_def lockForRead_def lockForRead_loop_def)
  moreover have "(newSystem True)\<lparr>lockData := ?d1,
             frames := (frames (newSystem True))(1 := Returned),
             readHeld := (if Returned = Returned then add_mset 1 (readHeld (newSystem True))
                          else readHeld (newSystem True))\<rparr> = ?s1"
    by (simp add: newSystem_def fun_upd_idem)
  ultimately have r1: "reachable True True ?s1"
    using reachable_step [OF reachable_newSystem] by simp
  have "step True ?s1
          (?s1\<lparr>lockData := ?d2, frames := (frames ?s1)(1 := Returned),
             writeHeld := (if Returned = Returned then add_mset 1 (writeHeld ?s1)
                           else writeHeld ?s1)\<rparr>)"
    by (rule step.callLockForWrite)
       (simp_all add: newSystem_def newData_def lockForWrite_def lockForWrite_loop_def)
  moreover have "?s1\<lparr>lockData := ?d2, frames := (frames ?s1)(1 := Returned),
             writeHeld := (if Returned = Returned then add_mset 1 (writeHeld ?s1)
                           else writeHeld ?s1)\<rparr> = ?s2"
    by (simp add: newSystem_def fun_upd_idem)
  ultimately have r2: "reachable True True ?s2"
    using reachable_step [OF r1] by simp
  have w: "1 \<in># writeHeld ?s2"
    by simp
  show ?thesis
    using mutual_exclusion [of True True ?s2 1 2] r2 w by simp
qed

section \<open>The current writer and the count of active writers\<close>

text \<open>
  C6, as the spec states it for both modes, fails on a non-recursive lock: after thread 7
  has taken a fresh non-recursive lock for writing, \<^verbatim>\<open>iActiveWriters\<close> is 1 and
  \<^verbatim>\<open>currentWriter\<close> is null.
\<close>

theorem nonrecursive_writer_unrecorded:
  "reachable True False
     ((newSystem False)\<lparr>lockData := (newData False)\<lparr>iActiveWriters := 1\<rparr>,
                         writeHeld := {#7#}\<rparr>) \<and>
   0 < iActiveWriters (lockData
     ((newSystem False)\<lparr>lockData := (newData False)\<lparr>iActiveWriters := 1\<rparr>,
                         writeHeld := {#7#}\<rparr>)) \<and>
   currentWriter (lockData
     ((newSystem False)\<lparr>lockData := (newData False)\<lparr>iActiveWriters := 1\<rparr>,
                         writeHeld := {#7#}\<rparr>)) = 0"
proof -
  let ?d1 = "(newData False)\<lparr>iActiveWriters := 1\<rparr>"
  let ?s1 = "(newSystem False)\<lparr>lockData := ?d1, writeHeld := {#7#}\<rparr>"
  have "step True (newSystem False)
          ((newSystem False)\<lparr>lockData := ?d1,
             frames := (frames (newSystem False))(7 := Returned),
             writeHeld := (if Returned = Returned then add_mset 7 (writeHeld (newSystem False))
                           else writeHeld (newSystem False))\<rparr>)"
    by (rule step.callLockForWrite)
       (simp_all add: newSystem_def newData_def lockForWrite_def lockForWrite_loop_def)
  moreover have "(newSystem False)\<lparr>lockData := ?d1,
             frames := (frames (newSystem False))(7 := Returned),
             writeHeld := (if Returned = Returned then add_mset 7 (writeHeld (newSystem False))
                           else writeHeld (newSystem False))\<rparr> = ?s1"
    by (simp add: newSystem_def fun_upd_idem)
  ultimately have "reachable True False ?s1"
    using reachable_step [OF reachable_newSystem] by simp
  then show ?thesis
    by (simp add: newData_def)
qed

text \<open>
  C6, amended. In every reachable state of a recursive lock \<^verbatim>\<open>iActiveWriters > 0\<close> holds
  exactly when \<^verbatim>\<open>currentWriter\<close> is not null (so \<^verbatim>\<open>iActiveWriters = 0\<close> exactly when it is
  null: the counter is never negative). In every reachable state of a non-recursive lock
  \<^verbatim>\<open>currentWriter\<close> is null.
\<close>

theorem current_writer_invariant:
  "reachable asserts recursive s \<longrightarrow>
     0 \<le> iActiveWriters (lockData s) \<and>
     (if recursive
      then (0 < iActiveWriters (lockData s) \<longleftrightarrow> currentWriter (lockData s) \<noteq> 0)
      else currentWriter (lockData s) = 0)"
proof (intro impI)
  assume "reachable asserts recursive s"
  then have inv: "lock_inv s" and mode: "bRecursive (lockData s) = recursive"
    using reachable_inv by blast+
  from inv have c: "iActiveWriters (lockData s) = int (size (writeHeld s))"
    by (simp add: lock_inv_def counters_inv_def)
  have "0 < iActiveWriters (lockData s) \<longleftrightarrow> currentWriter (lockData s) \<noteq> 0" if recursive
  proof -
    from that inv mode have
      w: "\<And>t. t \<in># writeHeld s \<longleftrightarrow> (currentWriter (lockData s) = t \<and> t \<noteq> 0)"
      by (simp add: lock_inv_def writer_inv_def)
    have "0 < iActiveWriters (lockData s) \<longleftrightarrow> writeHeld s \<noteq> {#}"
      using c by (simp add: nonempty_has_size)
    also have "\<dots> \<longleftrightarrow> (\<exists>t. t \<in># writeHeld s)"
      by (auto simp: multiset_nonemptyE)
    also have "\<dots> \<longleftrightarrow> currentWriter (lockData s) \<noteq> 0"
      using w by auto
    finally show ?thesis .
  qed
  moreover have "currentWriter (lockData s) = 0" if "\<not> recursive"
    using that inv mode by (simp add: lock_inv_def writer_inv_def)
  ultimately show "0 \<le> iActiveWriters (lockData s) \<and>
     (if recursive
      then (0 < iActiveWriters (lockData s) \<longleftrightarrow> currentWriter (lockData s) \<noteq> 0)
      else currentWriter (lockData s) = 0)"
    using c by simp
qed

theorem current_writer_invariant_witness:
  "reachable True True
     ((newSystem True)\<lparr>lockData := (newData True)\<lparr>currentWriter := 7, iActiveWriters := 1\<rparr>,
                        writeHeld := {#7#}\<rparr>) \<and>
   0 < iActiveWriters (lockData
     ((newSystem True)\<lparr>lockData := (newData True)\<lparr>currentWriter := 7, iActiveWriters := 1\<rparr>,
                        writeHeld := {#7#}\<rparr>)) \<and>
   currentWriter (lockData
     ((newSystem True)\<lparr>lockData := (newData True)\<lparr>currentWriter := 7, iActiveWriters := 1\<rparr>,
                        writeHeld := {#7#}\<rparr>)) \<noteq> 0"
proof -
  let ?d1 = "(newData True)\<lparr>currentWriter := 7, iActiveWriters := 1\<rparr>"
  let ?s1 = "(newSystem True)\<lparr>lockData := ?d1, writeHeld := {#7#}\<rparr>"
  have "step True (newSystem True)
          ((newSystem True)\<lparr>lockData := ?d1,
             frames := (frames (newSystem True))(7 := Returned),
             writeHeld := (if Returned = Returned then add_mset 7 (writeHeld (newSystem True))
                           else writeHeld (newSystem True))\<rparr>)"
    by (rule step.callLockForWrite)
       (simp_all add: newSystem_def newData_def lockForWrite_def lockForWrite_loop_def)
  moreover have "(newSystem True)\<lparr>lockData := ?d1,
             frames := (frames (newSystem True))(7 := Returned),
             writeHeld := (if Returned = Returned then add_mset 7 (writeHeld (newSystem True))
                           else writeHeld (newSystem True))\<rparr> = ?s1"
    by (simp add: newSystem_def fun_upd_idem)
  ultimately have r: "reachable True True ?s1"
    using reachable_step [OF reachable_newSystem] by simp
  show ?thesis
    using current_writer_invariant [of True True ?s1] r by simp
qed

section \<open>The waiting counters and the data model\<close>

lemma readersWaiting_update:
  "readersWaiting (fs(tid := f)) =
     (if \<exists>self. f = InReaderWait self then insert tid (readersWaiting fs)
      else readersWaiting fs - {tid})"
  by (auto simp: readersWaiting_def)

lemma writersWaiting_update:
  "writersWaiting (fs(tid := f)) =
     (if \<exists>self own. f = InWriterWait self own then insert tid (writersWaiting fs)
      else writersWaiting fs - {tid})"
  by (auto simp: writersWaiting_def)

lemma waiting_membership:
  "fs tid = Returned \<Longrightarrow> tid \<notin> readersWaiting fs \<and> tid \<notin> writersWaiting fs"
  "fs tid = InReaderWait self \<Longrightarrow> tid \<in> readersWaiting fs \<and> tid \<notin> writersWaiting fs"
  "fs tid = InWriterWait self own \<Longrightarrow> tid \<notin> readersWaiting fs \<and> tid \<in> writersWaiting fs"
  by (simp_all add: readersWaiting_def writersWaiting_def)

lemma card_remove_int:
  "finite A \<Longrightarrow> x \<in> A \<Longrightarrow> int (card A - Suc 0) = int (card A) - 1"
  by (cases "card A") auto

lemma waiting_step: "step asserts s s' \<Longrightarrow> waiting_inv s \<Longrightarrow> waiting_inv s'"
proof (induction rule: step.induct)
  case (callLockForRead tid s f d')
  note m = waiting_membership(1) [of "frames s" tid, OF callLockForRead(2)]
  from callLockForRead(3) show ?case
  proof (cases rule: lockForRead_cases)
    case (reenter n)
    with callLockForRead(4) m show ?thesis
      by (simp add: waiting_inv_def readersWaiting_update writersWaiting_update)
  next
    case promote
    with callLockForRead(4) m show ?thesis
      by (simp add: waiting_inv_def readersWaiting_update writersWaiting_update)
  next
    case granted
    with callLockForRead(4) m show ?thesis
      by (simp add: waiting_inv_def readersWaiting_update writersWaiting_update)
  next
    case suspended
    with callLockForRead(4) m show ?thesis
      by (simp add: waiting_inv_def readersWaiting_update writersWaiting_update)
  qed
next
  case (resumeLockForRead tid s self f d')
  note m = waiting_membership(2) [of "frames s" tid, OF resumeLockForRead(2)]
  from resumeLockForRead(3) show ?case
  proof (cases rule: lockForRead_resume_cases)
    case granted
    from resumeLockForRead(4) m have
      "int (card (readersWaiting (frames s)) - Suc 0) = int (card (readersWaiting (frames s))) - 1"
      by (intro card_remove_int [of _ tid]) (simp_all add: waiting_inv_def)
    with granted resumeLockForRead(4) m show ?thesis
      by (simp add: waiting_inv_def readersWaiting_update writersWaiting_update)
  next
    case suspended
    then have "s\<lparr>lockData := d', frames := (frames s)(tid := f),
          readHeld := (if f = Returned then add_mset tid (readHeld s) else readHeld s)\<rparr> = s"
      using resumeLockForRead(2) by (simp add: fun_upd_idem)
    with resumeLockForRead(4) show ?thesis by simp
  qed
next
  case (callLockForWrite tid s f d')
  note m = waiting_membership(1) [of "frames s" tid, OF callLockForWrite(2)]
  from callLockForWrite(3) show ?case
  proof (cases rule: lockForWrite_cases)
    case reenter
    with callLockForWrite(4) m show ?thesis
      by (simp add: waiting_inv_def readersWaiting_update writersWaiting_update)
  next
    case granted
    with callLockForWrite(4) m show ?thesis
      by (simp add: waiting_inv_def readersWaiting_update writersWaiting_update)
  next
    case suspended
    with callLockForWrite(4) m show ?thesis
      by (simp add: waiting_inv_def readersWaiting_update writersWaiting_update)
  qed
next
  case (resumeLockForWrite tid s self own f d')
  note m = waiting_membership(3) [of "frames s" tid, OF resumeLockForWrite(2)]
  from resumeLockForWrite(3) show ?case
  proof (cases rule: lockForWrite_resume_cases)
    case granted
    from resumeLockForWrite(4) m have
      "int (card (writersWaiting (frames s)) - Suc 0) = int (card (writersWaiting (frames s))) - 1"
      by (intro card_remove_int [of _ tid]) (simp_all add: waiting_inv_def)
    with granted resumeLockForWrite(4) m show ?thesis
      by (simp add: waiting_inv_def readersWaiting_update writersWaiting_update)
  next
    case suspended
    then have "s\<lparr>lockData := d', frames := (frames s)(tid := f),
          writeHeld := (if f = Returned then add_mset tid (writeHeld s) else writeHeld s)\<rparr> = s"
      using resumeLockForWrite(2) by (simp add: fun_upd_idem)
    with resumeLockForWrite(4) show ?thesis by simp
  qed
next
  case (callUnlockRead tid s sig d')
  with unlockRead_waiting [OF callUnlockRead(4)] show ?case
    by (simp add: waiting_inv_def)
next
  case (callUnlockWrite tid s sig d')
  with unlockWrite_waiting [OF callUnlockWrite(4)] show ?case
    by (simp add: waiting_inv_def)
qed

lemma newSystem_waiting: "waiting_inv (newSystem recursive)"
  by (simp add: waiting_inv_def readersWaiting_def writersWaiting_def newSystem_def newData_def)

lemma reachable_waiting:
  assumes "reachable asserts recursive s"
  shows "waiting_inv s"
  using assms unfolding reachable_def
proof (induction rule: rtranclp_induct)
  case base
  show ?case by (rule newSystem_waiting)
next
  case (step s s')
  then show ?case
    using waiting_step by blast
qed

text \<open>
  What the data model says of the fields holds in every reachable state: no counter is
  negative and every entry of the table is positive.
\<close>

lemma reachable_data_model:
  assumes "reachable asserts recursive s"
  shows "0 \<le> iActiveReaders (lockData s)" "0 \<le> iActiveWriters (lockData s)"
    "0 \<le> iWaitingReaders (lockData s)" "0 \<le> iWaitingWriters (lockData s)"
    "hashCurrentReaders (lockData s) t = Some k \<Longrightarrow> 0 < k"
proof -
  from assms have inv: "lock_inv s" and w: "waiting_inv s"
    using reachable_inv reachable_waiting by blast+
  from inv show "0 \<le> iActiveReaders (lockData s)" "0 \<le> iActiveWriters (lockData s)"
    by (simp_all add: lock_inv_def counters_inv_def)
  from w show "0 \<le> iWaitingReaders (lockData s)" "0 \<le> iWaitingWriters (lockData s)"
    by (simp_all add: waiting_inv_def)
  show "0 < k" if "hashCurrentReaders (lockData s) t = Some k"
  proof (cases "bRecursive (lockData s)")
    case True
    with inv that show ?thesis
      by (simp add: table_entry)
  next
    case False
    with inv that show ?thesis
      by (simp add: lock_inv_def table_inv_def)
  qed
qed

end
